theory Spec2Isabelle
  imports Main "HOL-Library.Word" "HOL-Library.Sublist"
begin

section \<open>JavaScript values used by the chat room\<close>

text \<open>
  A JavaScript string is a sequence of 16-bit code units; \<open>charCodeAt\<close> reads one of
  them. String literals of the source are written \<open>str ''...''\<close>.
\<close>

type_synonym jschar = "16 word"
type_synonym jsstring = "jschar list"

definition str :: "string \<Rightarrow> jsstring" where
  "str s = map of_char s"

text \<open>
  The character classes of the regular expressions and of \<open>String.prototype.trim\<close>:
  \<open>\s\<close> and \<open>trim\<close> use white space and line terminators together, \<open>.\<close> excludes
  the line terminators, \<open>\w\<close> is \<open>[A-Za-z0-9_]\<close>.
\<close>

definition isLineTerminator :: "jschar \<Rightarrow> bool" where
  "isLineTerminator c = (c = 0x0A \<or> c = 0x0D \<or> c = 0x2028 \<or> c = 0x2029)"

definition isWhiteSpace :: "jschar \<Rightarrow> bool" where
  "isWhiteSpace c =
     (c = 0x09 \<or> c = 0x0B \<or> c = 0x0C \<or> c = 0x20 \<or> c = 0xA0 \<or> c = 0x1680
      \<or> (0x2000 \<le> c \<and> c \<le> 0x200A) \<or> c = 0x202F \<or> c = 0x205F \<or> c = 0x3000
      \<or> c = 0xFEFF \<or> isLineTerminator c)"

definition isWordChar :: "jschar \<Rightarrow> bool" where
  "isWordChar c =
     ((0x41 \<le> c \<and> c \<le> 0x5A) \<or> (0x61 \<le> c \<and> c \<le> 0x7A) \<or> (0x30 \<le> c \<and> c \<le> 0x39)
      \<or> c = 0x5F)"

definition LT :: jschar where "LT = 0x3C"   \<comment> \<open>the character \<open><\<close>\<close>
definition GT :: jschar where "GT = 0x3E"   \<comment> \<open>the character \<open>>\<close>\<close>
definition AT :: jschar where "AT = 0x40"   \<comment> \<open>the character \<open>@\<close>\<close>
definition NL :: jschar where "NL = 0x0A"   \<comment> \<open>the character \<open>\n\<close>\<close>

text \<open>\<open>s.trim()\<close>, \<open>s.includes(sub)\<close>, \<open>s.split(sep)\<close> for a one-character separator
  (never the empty array), \<open>s.replace(/\s+/g, '')\<close> and \<open>s.padStart(n, c)\<close>.\<close>

definition trim :: "jsstring \<Rightarrow> jsstring" where
  "trim s = rev (dropWhile isWhiteSpace (rev (dropWhile isWhiteSpace s)))"

fun includes_js :: "jsstring \<Rightarrow> jsstring \<Rightarrow> bool" where
  "includes_js [] sub = (sub = [])"
| "includes_js (c # cs) sub = (prefix sub (c # cs) \<or> includes_js cs sub)"

fun split :: "jschar \<Rightarrow> jsstring \<Rightarrow> jsstring list" where
  "split sep [] = [[]]"
| "split sep (c # cs) =
     (if c = sep then [] # split sep cs
      else (case split sep cs of [] \<Rightarrow> [[c]] | piece # pieces \<Rightarrow> (c # piece) # pieces))"

definition stripWhiteSpace :: "jsstring \<Rightarrow> jsstring" where
  "stripWhiteSpace s = filter (\<lambda>c. \<not> isWhiteSpace c) s"

definition padStart :: "nat \<Rightarrow> jschar \<Rightarrow> jsstring \<Rightarrow> jsstring" where
  "padStart n c s = replicate (n - length s) c @ s"

subsection \<open>The two regular expressions\<close>

text \<open>
  \<open>/^(.+?)\s*<([^>]+)>$/\<close> of \<open>extractUserProfile\<close>. The first group is lazy, so the
  matcher tries the prefixes of the input from the shortest; a prefix stops being a
  candidate at the first line terminator. After the prefix, \<open>\s*\<close> takes the whole run of
  white space (a shorter run is followed by white space, never by \<open><\<close>), and \<open>[^>]+\<close>
  must reach the final character, which must be the only \<open>>\<close> after the \<open><\<close>.
  The result is the pair of groups \<open>(match[1], match[2])\<close>, or \<open>None\<close> for \<open>null\<close>.
\<close>

definition userid_tail :: "jsstring \<Rightarrow> jsstring option" where
  "userid_tail r =
     (case dropWhile isWhiteSpace r of
        [] \<Rightarrow> None
      | c # r2 \<Rightarrow>
          if c = LT \<and> r2 \<noteq> [] \<and> last r2 = GT \<and> butlast r2 \<noteq> [] \<and> GT \<notin> set (butlast r2)
          then Some (butlast r2) else None)"

fun userid_from :: "jsstring \<Rightarrow> jsstring \<Rightarrow> (jsstring \<times> jsstring) option" where
  "userid_from g1 [] = None"
| "userid_from g1 (c # cs) =
     (if isLineTerminator c then None
      else (case userid_tail cs of
              Some g2 \<Rightarrow> Some (g1 @ [c], g2)
            | None \<Rightarrow> userid_from (g1 @ [c]) cs))"

definition match_userid :: "jsstring \<Rightarrow> (jsstring \<times> jsstring) option" where
  "match_userid s = userid_from [] s"

text \<open>
  \<open>/([\w\s]+)\s*<([^>]+)>/\<close> of \<open>fallbackExtractUserProfile\<close>, not anchored: the leftmost
  start that matches wins. At a start, the greedy first group takes the whole run of word
  and space characters (giving some back never helps: what follows a shorter run is still
  a word or space character), the next character must be \<open><\<close>, and a \<open>>\<close> must follow at
  least one other character.
\<close>

definition comment_here :: "jsstring \<Rightarrow> (jsstring \<times> jsstring) option" where
  "comment_here s =
     (let g1 = takeWhile (\<lambda>c. isWordChar c \<or> isWhiteSpace c) s in
      if g1 = [] then None
      else (case dropWhile (\<lambda>c. isWordChar c \<or> isWhiteSpace c) s of
              [] \<Rightarrow> None
            | c # r2 \<Rightarrow>
                if c = LT \<and> takeWhile (\<lambda>d. d \<noteq> GT) r2 \<noteq> [] \<and> dropWhile (\<lambda>d. d \<noteq> GT) r2 \<noteq> []
                then Some (g1, takeWhile (\<lambda>d. d \<noteq> GT) r2) else None))"

fun match_comment :: "jsstring \<Rightarrow> (jsstring \<times> jsstring) option" where
  "match_comment [] = None"
| "match_comment (c # cs) =
     (case comment_here (c # cs) of
        Some groups \<Rightarrow> Some groups
      | None \<Rightarrow> match_comment cs)"

section \<open>generateUserIdFromKey\<close>

text \<open>
  The bitwise operators of JavaScript work on the 32-bit two's complement reading of
  their operands (\<open>ToInt32\<close>); \<open>-\<close> and \<open>+\<close> are exact here, all values staying far
  below \<open>2^53\<close>.
\<close>

definition toInt32 :: "int \<Rightarrow> int" where
  "toInt32 x = (x + 2 ^ 31) mod 2 ^ 32 - 2 ^ 31"

definition shl32 :: "int \<Rightarrow> nat \<Rightarrow> int" where   \<comment> \<open>\<open>x << n\<close>\<close>
  "shl32 x n = toInt32 (toInt32 x * 2 ^ n)"

definition and32 :: "int \<Rightarrow> int \<Rightarrow> int" where   \<comment> \<open>\<open>x & y\<close>\<close>
  "and32 x y = and (toInt32 x) (toInt32 y)"

text \<open>One round of the loop, and the loop over the characters from the first.\<close>

definition hash_step :: "int \<Rightarrow> jschar \<Rightarrow> int" where
  "hash_step hash char = (let hash1 = (shl32 hash 5 - hash) + uint char in and32 hash1 hash1)"

fun hash_loop :: "jsstring \<Rightarrow> int \<Rightarrow> int" where
  "hash_loop [] hash = hash"
| "hash_loop (char # rest) hash = hash_loop rest (hash_step hash char)"

definition hexDigit :: "nat \<Rightarrow> jschar" where
  "hexDigit d = str ''0123456789abcdef'' ! d"

text \<open>\<open>n.toString(16)\<close> for a non-negative integer.\<close>

fun toString16 :: "nat \<Rightarrow> jsstring" where
  "toString16 n = (if n < 16 then [hexDigit n] else toString16 (n div 16) @ [hexDigit (n mod 16)])"

definition generateUserIdFromKey :: "jsstring \<Rightarrow> jsstring" where
  "generateUserIdFromKey publicKey =
     padStart 8 (of_char CHR ''0'') (toString16 (nat \<bar>hash_loop publicKey 0\<bar>))"

text \<open>
  The weak hash as the specification words it: \<open>h := h * 31 + charCode\<close> over each
  character, truncated to a signed 32-bit integer with wrap-around; then the absolute
  value, as eight lowercase hexadecimal digits.
\<close>

definition spec_rolling_hash :: "jsstring \<Rightarrow> int" where
  "spec_rolling_hash text = foldl (\<lambda>h c. toInt32 (h * 31 + uint c)) 0 text"

definition spec_hex8 :: "nat \<Rightarrow> jsstring" where
  "spec_hex8 n = map (\<lambda>i. hexDigit (n div 16 ^ (7 - i) mod 16)) [0..<8]"

definition spec_fallback_id :: "jsstring \<Rightarrow> jsstring" where
  "spec_fallback_id text = spec_hex8 (nat \<bar>spec_rolling_hash text\<bar>)"

section \<open>Decoded frames\<close>

text \<open>
  What \<open>JSON.parse\<close> returns. A number is carried as the text that the number-to-string
  conversion of JavaScript gives for it (\<open>0\<close> and \<open>-0\<close> both give \<open>0\<close>); the room never
  computes with one.
\<close>

datatype jsval =
    JNull
  | JBool bool
  | JNum jsstring
  | JStr jsstring
  | JArr "jsval list"
  | JObj "(jsstring \<times> jsval) list"

text \<open>
  \<open>message.k\<close> for the property names the room reads (\<open>type\<close>, \<open>publicKey\<close>,
  \<open>encryptedData\<close>), none of which a built-in prototype has: the outer \<open>None\<close> is the
  TypeError of reading a property of \<open>null\<close>, the inner \<open>None\<close> is \<open>undefined\<close>.
\<close>

fun property :: "jsval \<Rightarrow> jsstring \<Rightarrow> jsval option option" where
  "property JNull k = None"
| "property (JObj ps) k = Some (map_of ps k)"
| "property (JBool b) k = Some None"
| "property (JNum n) k = Some None"
| "property (JStr s) k = Some None"
| "property (JArr xs) k = Some None"

text \<open>\<open>!v\<close> is \<open>\<not> truthy v\<close>; \<open>typeof v === 'string'\<close>; and the string itself.\<close>

fun truthy :: "jsval option \<Rightarrow> bool" where
  "truthy None = False"
| "truthy (Some JNull) = False"
| "truthy (Some (JBool b)) = b"
| "truthy (Some (JNum n)) = (n \<noteq> str ''0'' \<and> n \<noteq> str ''NaN'')"
| "truthy (Some (JStr s)) = (s \<noteq> [])"
| "truthy (Some (JArr xs)) = True"
| "truthy (Some (JObj ps)) = True"

fun typeof_string :: "jsval option \<Rightarrow> bool" where
  "typeof_string (Some (JStr s)) = True"
| "typeof_string _ = False"

fun asString :: "jsval option \<Rightarrow> jsstring" where
  "asString (Some (JStr s)) = s"
| "asString _ = []"

text \<open>
  The string conversion of a template literal, \<open>`${v}`\<close>; \<open>None\<close> is a TypeError. An
  array joins its elements with commas, \<open>null\<close> elements giving the empty string. An
  object of \<open>JSON.parse\<close> has no callable property: with an own \<open>toString\<close> property the
  conversion finds nothing to call and throws, without one it is \<open>[object Object]\<close>.
\<close>

fun ToString :: "jsval \<Rightarrow> jsstring option"
  and join_elements :: "jsval list \<Rightarrow> jsstring option" where
  "ToString JNull = Some (str ''null'')"
| "ToString (JBool b) = Some (if b then str ''true'' else str ''false'')"
| "ToString (JNum n) = Some n"
| "ToString (JStr s) = Some s"
| "ToString (JArr xs) = join_elements xs"
| "ToString (JObj ps) =
     (if str ''toString'' \<in> fst ` set ps then None else Some (str ''[object Object]''))"
| "join_elements [] = Some []"
| "join_elements (x # xs) =
     (case (if x = JNull then Some [] else ToString x) of
        None \<Rightarrow> None
      | Some t \<Rightarrow>
          if xs = [] then Some t
          else (case join_elements xs of None \<Rightarrow> None | Some r \<Rightarrow> Some (t @ str '','' @ r)))"

fun template_string :: "jsval option \<Rightarrow> jsstring option" where
  "template_string None = Some (str ''undefined'')"
| "template_string (Some v) = ToString v"

section \<open>Data model\<close>

datatype UserRole = GUEST | USER | ADMIN

type_synonym ws = nat   \<comment> \<open>a WebSocket object, by identity\<close>

record UserInfo =
  u_id :: jsstring
  u_name :: jsstring
  u_email :: jsstring
  u_publicKey :: jsstring
  u_webSocket :: ws
  u_role :: UserRole

record UserProfile =
  p_id :: jsstring
  p_name :: jsstring
  p_email :: jsstring

record UserListEntry =
  e_id :: jsstring
  e_name :: jsstring
  e_email :: jsstring
  e_publicKey :: jsstring

text \<open>The outbound frames; \<open>EncryptedMessage senderId encryptedData timestamp\<close>.\<close>

datatype frame =
    RegisteredMessage UserProfile
  | UserListMessage "UserListEntry list"
  | EncryptedMessage jsstring jsstring int
  | ErrorMessage jsstring

text \<open>
  What the room does to the outside, in order: a \<open>JSON.stringify\<close> of a frame, a
  \<open>send\<close> of that text on a socket (returned or thrown), a \<open>close\<close> of a socket
  (returned or thrown). The text sent is named by the frame it serialises.
\<close>

datatype event =
    Stringified frame
  | Sent ws frame
  | SendFailed ws frame
  | Closed ws
  | CloseFailed ws

text \<open>
  The room: \<open>users\<close> is the Map in insertion order, \<open>sessions\<close> is the Set as
  ECMAScript keeps it, a list of entries in insertion order where \<open>delete\<close> replaces the
  entry of the value by an empty one (\<open>None\<close>), so that a running iterator keeps its place; \<open>io\<close> is
  the record of the events so far.
\<close>

record ChatRoom =
  users :: "(ws \<times> UserInfo) list"
  sessions :: "ws option list"
  io :: "event list"

text \<open>
  The key-parsing library: \<open>readKey\<close> rejects (\<open>None\<close>) or gives a key, whose
  \<open>getPrimaryUser\<close> rejects, or gives a user without a user-id packet, or one with the
  user-id string (\<open>userID.userID || ''\<close>); \<open>getFingerprint\<close> gives a string or throws.
\<close>

datatype primaryUser = Rejects | NoUserID | UserID jsstring

record PublicKey =
  getPrimaryUser :: primaryUser
  getFingerprint :: "jsstring option"

text \<open>
  The host: whether a \<open>send\<close> or a \<open>close\<close> throws (it may depend on everything done
  so far), \<open>Date.now()\<close>, the value of \<open>Math.random().toString(36).substr(2, 8)\<close>, the
  key parser, and the Unicode case mappings of strings.
\<close>

record host =
  sendThrows :: "event list \<Rightarrow> ws \<Rightarrow> frame \<Rightarrow> bool"
  closeThrows :: "event list \<Rightarrow> ws \<Rightarrow> bool"
  dateNow :: int
  randomSuffix :: jsstring
  readKey :: "jsstring \<Rightarrow> PublicKey option"
  toLowerCase :: "jsstring \<Rightarrow> jsstring"
  toUpperCase :: "jsstring \<Rightarrow> jsstring"

subsection \<open>Map and Set operations\<close>

definition map_get :: "ws \<Rightarrow> (ws \<times> UserInfo) list \<Rightarrow> UserInfo option" where
  "map_get k m = map_of m k"

fun map_set :: "ws \<Rightarrow> UserInfo \<Rightarrow> (ws \<times> UserInfo) list \<Rightarrow> (ws \<times> UserInfo) list" where
  "map_set k v [] = [(k, v)]"
| "map_set k v ((k', v') # m) = (if k' = k then (k, v) # m else (k', v') # map_set k v m)"

definition map_delete :: "ws \<Rightarrow> (ws \<times> UserInfo) list \<Rightarrow> (ws \<times> UserInfo) list" where
  "map_delete k m = filter (\<lambda>entry. fst entry \<noteq> k) m"

definition map_values :: "(ws \<times> UserInfo) list \<Rightarrow> UserInfo list" where
  "map_values m = map snd m"

definition set_add :: "ws \<Rightarrow> ws option list \<Rightarrow> ws option list" where
  "set_add v es = (if Some v \<in> set es then es else es @ [Some v])"

fun set_delete :: "ws \<Rightarrow> ws option list \<Rightarrow> ws option list" where
  "set_delete v [] = []"
| "set_delete v (e # es) = (if e = Some v then None # es else e # set_delete v es)"

text \<open>The members of the Set, in iteration order.\<close>

fun live :: "ws option list \<Rightarrow> ws list" where
  "live [] = []"
| "live (None # es) = live es"
| "live (Some v # es) = v # live es"

subsection \<open>Calls on the outside\<close>

datatype completion = Normal | Thrown

definition emit :: "event \<Rightarrow> ChatRoom \<Rightarrow> ChatRoom" where
  "emit e s = s\<lparr>io := io s @ [e]\<rparr>"

definition JSON_stringify :: "frame \<Rightarrow> ChatRoom \<Rightarrow> ChatRoom" where
  "JSON_stringify f s = emit (Stringified f) s"

definition ws_send :: "host \<Rightarrow> ws \<Rightarrow> frame \<Rightarrow> ChatRoom \<Rightarrow> completion \<times> ChatRoom" where
  "ws_send H w f s =
     (if sendThrows H (io s) w f then (Thrown, emit (SendFailed w f) s)
      else (Normal, emit (Sent w f) s))"

definition ws_close :: "host \<Rightarrow> ws \<Rightarrow> ChatRoom \<Rightarrow> completion \<times> ChatRoom" where
  "ws_close H w s =
     (if closeThrows H (io s) w then (Thrown, emit (CloseFailed w) s)
      else (Normal, emit (Closed w) s))"

section \<open>Identity extraction\<close>

text \<open>The block under \<open>if (userID)\<close>: name and email from the user-id string.\<close>

definition parse_userIdString :: "jsstring \<Rightarrow> jsstring \<times> jsstring" where
  "parse_userIdString userIdString =
     (case match_userid userIdString of
        Some (g1, g2) \<Rightarrow> (trim g1, trim g2)
      | None \<Rightarrow>
          if includes_js userIdString [AT] then
            (let email = trim userIdString in (hd (split AT email), email))
          else (trim userIdString, []))"

text \<open>
  The body of the \<open>try\<close> of \<open>extractUserProfile\<close>; \<open>None\<close> when something in it
  throws.
\<close>

definition extract_try :: "host \<Rightarrow> jsstring \<Rightarrow> UserProfile option" where
  "extract_try H publicKeyArmored =
     (case readKey H publicKeyArmored of
        None \<Rightarrow> None
      | Some publicKey \<Rightarrow>
          (case getPrimaryUser publicKey of
             Rejects \<Rightarrow> None
           | userID \<Rightarrow>
               (let (name, email) =
                      (case userID of UserID userIdString \<Rightarrow> parse_userIdString userIdString
                       | _ \<Rightarrow> ([], []))
                in case getFingerprint publicKey of
                     None \<Rightarrow> None
                   | Some fingerprint \<Rightarrow>
                       (let id = toUpperCase H fingerprint;
                            name = (if name = [] then str ''User_'' @ randomSuffix H else name);
                            email = (if email = []
                                     then stripWhiteSpace (toLowerCase H name) @ str ''@example.com''
                                     else email)
                        in Some \<lparr>p_id = id, p_name = name, p_email = email\<rparr>))))"

fun scan_lines :: "jsstring list \<Rightarrow> jsstring \<times> jsstring \<Rightarrow> jsstring \<times> jsstring" where
  "scan_lines [] (name, email) = (name, email)"
| "scan_lines (line # lines) (name, email) =
     (if includes_js line (str ''Comment:'') \<or> includes_js line (str ''Name:'') then
        (case match_comment line of
           Some (g1, g2) \<Rightarrow> scan_lines lines (trim g1, trim g2)
         | None \<Rightarrow> scan_lines lines (name, email))
      else scan_lines lines (name, email))"

definition fallbackExtractUserProfile :: "host \<Rightarrow> jsstring \<Rightarrow> UserProfile" where
  "fallbackExtractUserProfile H publicKey =
     (let lines = split NL publicKey;
          name = str ''User_'' @ randomSuffix H;
          email = toLowerCase H name @ str ''@example.com'';
          id = generateUserIdFromKey publicKey;
          (name, email) = scan_lines lines (name, email)
      in \<lparr>p_id = id, p_name = name, p_email = email\<rparr>)"

text \<open>\<open>extractUserProfile\<close>: \<open>Some\<close> is the value the promise resolves to, \<open>None\<close> a
  rejection.\<close>

definition extractUserProfile :: "host \<Rightarrow> jsstring \<Rightarrow> UserProfile option" where
  "extractUserProfile H publicKeyArmored =
     (case extract_try H publicKeyArmored of
        Some profile \<Rightarrow> Some profile
      | None \<Rightarrow> Some (fallbackExtractUserProfile H publicKeyArmored))"

text \<open>
  The fallback once more, as JavaScript runs it, with the steps that can throw written
  out. \<open>line.match(re)\<close> is \<open>null\<close> or an array: the matched text, then one entry for
  each group of the expression. Reading an array beyond its end gives \<open>undefined\<close>, and
  \<open>undefined.trim()\<close> throws a \<open>TypeError\<close>. Nothing catches what the fallback throws:
  it is called inside the \<open>catch\<close>, so its exception rejects the promise of
  \<open>extractUserProfile\<close>. \<open>None\<close> is \<open>undefined\<close> in \<open>element\<close>, and the thrown error in
  the others.
\<close>

definition comment_match :: "jsstring \<Rightarrow> jsstring option list option" where
  "comment_match line =
     (case match_comment line of
        None \<Rightarrow> None
      | Some (g1, g2) \<Rightarrow> Some [Some (g1 @ LT # g2 @ [GT]), Some g1, Some g2])"

definition element :: "'a option list \<Rightarrow> nat \<Rightarrow> 'a option" where
  "element xs i = (if i < length xs then xs ! i else None)"

definition call_trim :: "jsstring option \<Rightarrow> jsstring option" where
  "call_trim v = (case v of None \<Rightarrow> None | Some s \<Rightarrow> Some (trim s))"

fun scan_lines_raw :: "jsstring list \<Rightarrow> jsstring \<times> jsstring \<Rightarrow> (jsstring \<times> jsstring) option" where
  "scan_lines_raw [] (name, email) = Some (name, email)"
| "scan_lines_raw (line # lines) (name, email) =
     (if includes_js line (str ''Comment:'') \<or> includes_js line (str ''Name:'') then
        (case comment_match line of
           Some m \<Rightarrow>
             (case call_trim (element m 1) of
                None \<Rightarrow> None
              | Some name' \<Rightarrow>
                  (case call_trim (element m 2) of
                     None \<Rightarrow> None
                   | Some email' \<Rightarrow> scan_lines_raw lines (name', email')))
         | None \<Rightarrow> scan_lines_raw lines (name, email))
      else scan_lines_raw lines (name, email))"

definition fallbackExtractUserProfile_raw :: "host \<Rightarrow> jsstring \<Rightarrow> UserProfile option" where
  "fallbackExtractUserProfile_raw H publicKey =
     (let lines = split NL publicKey;
          name = str ''User_'' @ randomSuffix H;
          email = toLowerCase H name @ str ''@example.com'';
          id = generateUserIdFromKey publicKey
      in case scan_lines_raw lines (name, email) of
           None \<Rightarrow> None
         | Some (name, email) \<Rightarrow> Some \<lparr>p_id = id, p_name = name, p_email = email\<rparr>)"

definition extractUserProfile_raw :: "host \<Rightarrow> jsstring \<Rightarrow> UserProfile option" where
  "extractUserProfile_raw H publicKeyArmored =
     (case extract_try H publicKeyArmored of
        Some profile \<Rightarrow> Some profile
      | None \<Rightarrow> fallbackExtractUserProfile_raw H publicKeyArmored)"

section \<open>The chat room\<close>

definition isValidPGPPublicKey :: "jsstring \<Rightarrow> bool" where
  "isValidPGPPublicKey publicKey =
     (includes_js publicKey (str ''-----BEGIN PGP PUBLIC KEY BLOCK-----'') \<and>
      includes_js publicKey (str ''-----END PGP PUBLIC KEY BLOCK-----''))"

definition isValidPGPMessage :: "jsstring \<Rightarrow> bool" where
  "isValidPGPMessage message =
     (includes_js message (str ''-----BEGIN PGP MESSAGE-----'') \<and>
      includes_js message (str ''-----END PGP MESSAGE-----''))"

fun findUserById :: "jsstring \<Rightarrow> UserInfo list \<Rightarrow> UserInfo option" where
  "findUserById uid [] = None"
| "findUserById uid (user # rest) =
     (if u_id user = uid then Some user else findUserById uid rest)"

text \<open>\<open>sendError\<close>: the \<open>catch\<close> ignores a throwing \<open>send\<close>.\<close>

definition sendError :: "host \<Rightarrow> ws \<Rightarrow> jsstring \<Rightarrow> ChatRoom \<Rightarrow> ChatRoom" where
  "sendError H webSocket message s =
     (let errorMessage = ErrorMessage message in
      case ws_send H webSocket errorMessage (JSON_stringify errorMessage s) of
        (Normal, s') \<Rightarrow> s'
      | (Thrown, s') \<Rightarrow> s')"

text \<open>
  The loop of \<open>broadcast\<close>, \<open>for (const session of this.sessions)\<close>, as the Set iterator
  runs it: \<open>index\<close> walks the entries of the Set as they are when it reaches them and
  passes over the empty ones; the body may delete from the Set meanwhile.
\<close>

function broadcast_from :: "host \<Rightarrow> frame \<Rightarrow> nat \<Rightarrow> ChatRoom \<Rightarrow> ChatRoom" where
  "broadcast_from H messageStr index s =
     (if index < length (sessions s) then
        (case sessions s ! index of
           None \<Rightarrow> broadcast_from H messageStr (index + 1) s
         | Some session \<Rightarrow>
             if sendThrows H (io s) session messageStr then
               broadcast_from H messageStr (index + 1)
                 ((emit (SendFailed session messageStr) s)
                    \<lparr>sessions := set_delete session (sessions s),
                     users := map_delete session (users s)\<rparr>)
             else broadcast_from H messageStr (index + 1) (emit (Sent session messageStr) s))
      else s)"
  by pat_completeness auto
termination
proof (relation "measure (\<lambda>(H, messageStr, index, s). length (sessions s) - index)")
  have same_length: "length (set_delete v es) = length es" for v es
    by (induction es) simp_all
  fix H :: host and messageStr :: frame and index :: nat and s :: ChatRoom and session :: ws
  assume "index < length (sessions s)"
  then show "((H, messageStr, index + 1, s), (H, messageStr, index, s))
      \<in> measure (\<lambda>(H, messageStr, index, s). length (sessions s) - index)"
    by simp
  then show "((H, messageStr, index + 1,
        (emit (SendFailed session messageStr) s)
          \<lparr>sessions := set_delete session (sessions s), users := map_delete session (users s)\<rparr>),
       (H, messageStr, index, s))
      \<in> measure (\<lambda>(H, messageStr, index, s). length (sessions s) - index)"
    by (simp add: same_length)
  show "((H, messageStr, index + 1, emit (Sent session messageStr) s), (H, messageStr, index, s))
      \<in> measure (\<lambda>(H, messageStr, index, s). length (sessions s) - index)"
    using \<open>index < length (sessions s)\<close> by (simp add: emit_def)
qed simp

declare broadcast_from.simps [simp del]

definition broadcast :: "host \<Rightarrow> frame \<Rightarrow> ChatRoom \<Rightarrow> ChatRoom" where
  "broadcast H message s = broadcast_from H message 0 (JSON_stringify message s)"

definition userList :: "(ws \<times> UserInfo) list \<Rightarrow> UserListEntry list" where
  "userList m =
     map (\<lambda>user. \<lparr>e_id = u_id user, e_name = u_name user, e_email = u_email user,
                  e_publicKey = u_publicKey user\<rparr>) (map_values m)"

definition broadcastUserList :: "host \<Rightarrow> ChatRoom \<Rightarrow> ChatRoom" where
  "broadcastUserList H s = broadcast H (UserListMessage (userList (users s))) s"

definition handleGetUsers :: "host \<Rightarrow> ws \<Rightarrow> ChatRoom \<Rightarrow> completion \<times> ChatRoom" where
  "handleGetUsers H webSocket s =
     (let response = UserListMessage (userList (users s)) in
      ws_send H webSocket response (JSON_stringify response s))"

definition handleChatMessage :: "host \<Rightarrow> ws \<Rightarrow> jsval \<Rightarrow> ChatRoom \<Rightarrow> completion \<times> ChatRoom" where
  "handleChatMessage H webSocket message s =
     (case map_get webSocket (users s) of
        None \<Rightarrow> (Normal, sendError H webSocket (str ''User not registered'') s)
      | Some sender \<Rightarrow>
          (case property message (str ''encryptedData'') of
             None \<Rightarrow> (Thrown, s)
           | Some encryptedData \<Rightarrow>
               if \<not> truthy encryptedData \<or> \<not> typeof_string encryptedData then
                 (Normal, sendError H webSocket (str ''Invalid encrypted data format'') s)
               else if \<not> isValidPGPMessage (asString encryptedData) then
                 (Normal, sendError H webSocket (str ''Invalid PGP message format'') s)
               else
                 (let broadcastMessage =
                        EncryptedMessage (u_id sender) (asString encryptedData) (dateNow H)
                  in (Normal, broadcast H broadcastMessage s))))"

definition handleDisconnect :: "host \<Rightarrow> ws \<Rightarrow> ChatRoom \<Rightarrow> ChatRoom" where
  "handleDisconnect H webSocket s =
     broadcastUserList H
       (s\<lparr>sessions := set_delete webSocket (sessions s),
          users := map_delete webSocket (users s)\<rparr>)"

text \<open>
  \<open>handleRegister\<close>. The eviction block, lines 195 to 200: delete the entry of the
  other channel, then close that channel.
\<close>

definition register_evict ::
  "host \<Rightarrow> ws \<Rightarrow> UserInfo option \<Rightarrow> ChatRoom \<Rightarrow> completion \<times> ChatRoom" where
  "register_evict H webSocket existingUser s =
     (case existingUser of
        None \<Rightarrow> (Normal, s)
      | Some existing \<Rightarrow>
          if u_webSocket existing \<noteq> webSocket then
            ws_close H (u_webSocket existing)
              (s\<lparr>users := map_delete (u_webSocket existing) (users s)\<rparr>)
          else (Normal, s))"

text \<open>The \<open>userInfo\<close> object of lines 185 to 192.\<close>

definition new_userInfo :: "ws \<Rightarrow> jsstring \<Rightarrow> UserProfile \<Rightarrow> UserInfo" where
  "new_userInfo webSocket publicKey userProfile =
     \<lparr>u_id = p_id userProfile, u_name = p_name userProfile, u_email = p_email userProfile,
      u_publicKey = publicKey, u_webSocket = webSocket, u_role = GUEST\<rparr>"

text \<open>
  The body of the \<open>try\<close>. The function is \<open>async\<close>: what follows the \<open>await\<close> runs
  later, in one piece, on the room as it is then; the checks before it read the frame
  only, so the whole body is taken on the room at that moment.
\<close>

definition register_try :: "host \<Rightarrow> ws \<Rightarrow> jsval \<Rightarrow> ChatRoom \<Rightarrow> completion \<times> ChatRoom" where
  "register_try H webSocket message s =
     (case property message (str ''publicKey'') of
        None \<Rightarrow> (Thrown, s)
      | Some publicKey \<Rightarrow>
          if \<not> truthy publicKey \<or> \<not> typeof_string publicKey then
            (Normal, sendError H webSocket (str ''Invalid public key format'') s)
          else if \<not> isValidPGPPublicKey (asString publicKey) then
            (Normal, sendError H webSocket (str ''Invalid PGP public key format'') s)
          else
            (case extractUserProfile H (asString publicKey) of
               None \<Rightarrow> (Thrown, s)
             | Some userProfile \<Rightarrow>
                 (let userInfo = new_userInfo webSocket (asString publicKey) userProfile;
                      existingUser = findUserById (u_id userInfo) (map_values (users s))
                  in case register_evict H webSocket existingUser s of
                       (Thrown, s1) \<Rightarrow> (Thrown, s1)
                     | (Normal, s1) \<Rightarrow>
                         (let s2 = s1\<lparr>users := map_set webSocket userInfo (users s1)\<rparr>;
                              response =
                                RegisteredMessage
                                  \<lparr>p_id = u_id userInfo, p_name = u_name userInfo,
                                   p_email = u_email userInfo\<rparr>
                          in case ws_send H webSocket response (JSON_stringify response s2) of
                               (Thrown, s3) \<Rightarrow> (Thrown, s3)
                             | (Normal, s3) \<Rightarrow> (Normal, broadcastUserList H s3)))))"

definition handleRegister :: "host \<Rightarrow> ws \<Rightarrow> jsval \<Rightarrow> ChatRoom \<Rightarrow> ChatRoom" where
  "handleRegister H webSocket message s =
     (case register_try H webSocket message s of
        (Normal, s') \<Rightarrow> s'
      | (Thrown, s') \<Rightarrow> sendError H webSocket (str ''Registration failed'') s')"

text \<open>
  \<open>handleMessage\<close>: the \<open>switch\<close> compares with \<open>===\<close>. The promise of
  \<open>handleRegister\<close> never rejects, so that case returns normally.
\<close>

definition handleMessage :: "host \<Rightarrow> ws \<Rightarrow> jsval \<Rightarrow> ChatRoom \<Rightarrow> completion \<times> ChatRoom" where
  "handleMessage H webSocket message s =
     (case property message (str ''type'') of
        None \<Rightarrow> (Thrown, s)
      | Some type \<Rightarrow>
          if type = Some (JStr (str ''register'')) then
            (Normal, handleRegister H webSocket message s)
          else if type = Some (JStr (str ''getUsers'')) then handleGetUsers H webSocket s
          else if type = Some (JStr (str ''message'')) then handleChatMessage H webSocket message s
          else
            (case template_string type of
               None \<Rightarrow> (Thrown, s)
             | Some text \<Rightarrow>
                 (Normal, sendError H webSocket (str ''Unknown message type: '' @ text) s)))"

text \<open>
  \<open>handleSession\<close> and its three listeners. \<open>on_message\<close> takes the outcome of
  \<open>JSON.parse(event.data)\<close>: \<open>None\<close> when the parser throws.
\<close>

definition handleSession :: "ws \<Rightarrow> ChatRoom \<Rightarrow> ChatRoom" where
  "handleSession webSocket s = s\<lparr>sessions := set_add webSocket (sessions s)\<rparr>"

definition on_message :: "host \<Rightarrow> ws \<Rightarrow> jsval option \<Rightarrow> ChatRoom \<Rightarrow> ChatRoom" where
  "on_message H webSocket parsed s =
     (case parsed of
        None \<Rightarrow> sendError H webSocket (str ''Invalid JSON format'') s
      | Some message \<Rightarrow>
          (case handleMessage H webSocket message s of
             (Normal, s') \<Rightarrow> s'
           | (Thrown, s') \<Rightarrow> sendError H webSocket (str ''Invalid JSON format'') s'))"

definition on_close :: "host \<Rightarrow> ws \<Rightarrow> ChatRoom \<Rightarrow> ChatRoom" where
  "on_close H webSocket s = handleDisconnect H webSocket s"

definition on_error :: "host \<Rightarrow> ws \<Rightarrow> ChatRoom \<Rightarrow> ChatRoom" where
  "on_error H webSocket s = handleDisconnect H webSocket s"

section \<open>Observations and invariants\<close>

text \<open>
  The broadcaster as the specification words it: the targets are a snapshot, a list taken
  before the pass; delivery is attempted to each in turn, and a failure removes that
  target from the session set and from the directory.
\<close>

fun spec_deliver :: "host \<Rightarrow> frame \<Rightarrow> ws list \<Rightarrow> ChatRoom \<Rightarrow> ChatRoom" where
  "spec_deliver H f [] s = s"
| "spec_deliver H f (target # targets) s =
     (if sendThrows H (io s) target f then
        spec_deliver H f targets
          ((emit (SendFailed target f) s)
             \<lparr>sessions := set_delete target (sessions s),
              users := map_delete target (users s)\<rparr>)
      else spec_deliver H f targets (emit (Sent target f) s))"

definition spec_broadcast :: "host \<Rightarrow> frame \<Rightarrow> ChatRoom \<Rightarrow> ChatRoom" where
  "spec_broadcast H f s = spec_deliver H f (live (sessions s)) (JSON_stringify f s)"

text \<open>The events a pass over the targets adds to the record \<open>tr\<close>, and the events of a
  whole broadcast of \<open>f\<close> from the room \<open>s\<close>.\<close>

fun deliveries :: "host \<Rightarrow> frame \<Rightarrow> ws list \<Rightarrow> event list \<Rightarrow> event list" where
  "deliveries H f [] tr = []"
| "deliveries H f (target # targets) tr =
     (if sendThrows H tr target f
      then SendFailed target f # deliveries H f targets (tr @ [SendFailed target f])
      else Sent target f # deliveries H f targets (tr @ [Sent target f]))"

text \<open>
  Reading a record of events: what a transition added, the send attempts (socket and
  text) in order, the sockets whose send threw, the frames serialised, the sockets closed.
\<close>

definition pass_events :: "host \<Rightarrow> frame \<Rightarrow> ChatRoom \<Rightarrow> event list" where
  "pass_events H f s =
     Stringified f # deliveries H f (live (sessions s)) (io s @ [Stringified f])"

definition new_events :: "ChatRoom \<Rightarrow> ChatRoom \<Rightarrow> event list" where
  "new_events s s' = drop (length (io s)) (io s')"

fun attempts :: "event list \<Rightarrow> (ws \<times> frame) list" where
  "attempts [] = []"
| "attempts (Sent w f # es) = (w, f) # attempts es"
| "attempts (SendFailed w f # es) = (w, f) # attempts es"
| "attempts (Stringified f # es) = attempts es"
| "attempts (Closed w # es) = attempts es"
| "attempts (CloseFailed w # es) = attempts es"

fun failures :: "event list \<Rightarrow> ws list" where
  "failures [] = []"
| "failures (SendFailed w f # es) = w # failures es"
| "failures (Sent w f # es) = failures es"
| "failures (Stringified f # es) = failures es"
| "failures (Closed w # es) = failures es"
| "failures (CloseFailed w # es) = failures es"

fun stringified :: "event list \<Rightarrow> frame list" where
  "stringified [] = []"
| "stringified (Stringified f # es) = f # stringified es"
| "stringified (Sent w f # es) = stringified es"
| "stringified (SendFailed w f # es) = stringified es"
| "stringified (Closed w # es) = stringified es"
| "stringified (CloseFailed w # es) = stringified es"

text \<open>
  What the containers guarantee: a Set holds a value once; a Map holds a key once. What
  the room keeps: every entry of the directory is stored under the socket it names
  (\<open>users.set(webSocket, userInfo)\<close> with \<open>userInfo.webSocket = webSocket\<close>), and no two
  entries carry the same identity id.
\<close>

definition wf_sessions :: "ChatRoom \<Rightarrow> bool" where
  "wf_sessions s = distinct (live (sessions s))"

definition wf_users :: "(ws \<times> UserInfo) list \<Rightarrow> bool" where
  "wf_users m = (distinct (map fst m) \<and> list_all (\<lambda>entry. u_webSocket (snd entry) = fst entry) m)"

definition unique_ids :: "(ws \<times> UserInfo) list \<Rightarrow> bool" where
  "unique_ids m = distinct (map u_id (map_values m))"

text \<open>The channels bound to an identity id.\<close>

definition bound_to :: "jsstring \<Rightarrow> (ws \<times> UserInfo) list \<Rightarrow> ws list" where
  "bound_to uid m = map fst (filter (\<lambda>entry. u_id (snd entry) = uid) m)"

text \<open>
  The identity id as the specification words it: the fingerprint, in upper case, when
  key parsing succeeds, the fallback hash when it fails. It reads the credential and the
  key parser only.
\<close>

definition spec_identity_id ::
  "(jsstring \<Rightarrow> PublicKey option) \<Rightarrow> (jsstring \<Rightarrow> jsstring) \<Rightarrow> jsstring \<Rightarrow> jsstring" where
  "spec_identity_id parse upper credential =
     (case parse credential of
        None \<Rightarrow> spec_fallback_id credential
      | Some key \<Rightarrow>
          (case getPrimaryUser key of
             Rejects \<Rightarrow> spec_fallback_id credential
           | _ \<Rightarrow>
               (case getFingerprint key of
                  None \<Rightarrow> spec_fallback_id credential
                | Some fingerprint \<Rightarrow> upper fingerprint)))"

text \<open>
  What the fallback finds in an armored text: the two groups of the expression in each
  line that mentions \<open>Comment:\<close> or \<open>Name:\<close> and matches, in the order of the lines.
\<close>

definition comment_lines :: "jsstring \<Rightarrow> (jsstring \<times> jsstring) list" where
  "comment_lines publicKey =
     List.map_filter match_comment
       (filter (\<lambda>line. includes_js line (str ''Comment:'') \<or> includes_js line (str ''Name:''))
          (split NL publicKey))"

section \<open>A small room, for the examples\<close>

definition ascii_upper :: "jschar \<Rightarrow> jschar" where
  "ascii_upper c = (if 0x61 \<le> c \<and> c \<le> 0x7A then c - 0x20 else c)"

definition ascii_lower :: "jschar \<Rightarrow> jschar" where
  "ascii_lower c = (if 0x41 \<le> c \<and> c \<le> 0x5A then c + 0x20 else c)"

definition alice_key :: jsstring where
  "alice_key = str ''-----BEGIN PGP PUBLIC KEY BLOCK----- A -----END PGP PUBLIC KEY BLOCK-----''"

definition sample_host :: host where
  "sample_host =
     \<lparr>sendThrows = (\<lambda>tr w f. w = 2),
      closeThrows = (\<lambda>tr w. False),
      dateNow = 1700000000000,
      randomSuffix = str ''k3j9x2ab'',
      readKey = (\<lambda>k. if k = alice_key
                     then Some \<lparr>getPrimaryUser = UserID (str ''Alice <alice@x.com>''),
                                getFingerprint = Some (str ''ab12cd'')\<rparr>
                     else None),
      toLowerCase = map ascii_lower,
      toUpperCase = map ascii_upper\<rparr>"

definition alice :: UserInfo where
  "alice =
     \<lparr>u_id = str ''AB12CD'', u_name = str ''Alice'', u_email = str ''alice@x.com'',
      u_publicKey = alice_key, u_webSocket = 4, u_role = GUEST\<rparr>"

definition sample_room :: ChatRoom where
  "sample_room = \<lparr>users = [(4, alice)], sessions = [Some 4, None, Some 2, Some 3], io = []\<rparr>"

text \<open>The three together.\<close>

definition room_inv :: "ChatRoom \<Rightarrow> bool" where
  "room_inv s = (wf_sessions s \<and> wf_users (users s) \<and> unique_ids (users s))"

definition alice_profile :: UserProfile where
  "alice_profile = \<lparr>p_id = str ''AB12CD'', p_name = str ''Alice'', p_email = str ''alice@x.com''\<rparr>"

definition register_alice :: jsval where
  "register_alice =
     JObj [(str ''type'', JStr (str ''register'')), (str ''publicKey'', JStr alice_key)]"

text \<open>A host whose sockets refuse to close, and a room with one unregistered channel.\<close>

definition close_refusing_host :: host where
  "close_refusing_host = sample_host\<lparr>closeThrows := (\<lambda>tr w. True)\<rparr>"

definition lobby :: ChatRoom where
  "lobby = \<lparr>users = [], sessions = [Some 5], io = []\<rparr>"

text \<open>A chat frame of Alice's, with a field \<open>timestamp\<close> of the client's that the room
  never reads, and the frames it is rejected as.\<close>

definition pgp_text :: jsstring where
  "pgp_text = str ''-----BEGIN PGP MESSAGE----- wcBM -----END PGP MESSAGE-----''"

definition chat_frame :: "jsval option \<Rightarrow> jsval" where
  "chat_frame data =
     JObj ([(str ''type'', JStr (str ''message'')), (str ''timestamp'', JNum (str ''5''))]
           @ (case data of None \<Rightarrow> [] | Some d \<Rightarrow> [(str ''encryptedData'', d)]))"

text \<open>A host whose key parser finds the given user-id string in every key.\<close>

definition host_with_userid :: "jsstring \<Rightarrow> host" where
  "host_with_userid u =
     sample_host\<lparr>readKey := (\<lambda>k. Some \<lparr>getPrimaryUser = UserID u,
                                          getFingerprint = Some (str ''ab12cd'')\<rparr>)\<rparr>"

text \<open>
  A host on which no send throws, one on which only the roster frames to one channel do,
  and an armored text that the key parser of the sample host rejects.
\<close>

definition quiet_host :: host where
  "quiet_host = sample_host\<lparr>sendThrows := (\<lambda>tr w f. False)\<rparr>"

definition roster_refusing :: "ws \<Rightarrow> host" where
  "roster_refusing c =
     sample_host\<lparr>sendThrows := (\<lambda>tr w f. case f of UserListMessage roster \<Rightarrow> w = c | _ \<Rightarrow> False)\<rparr>"

definition bob_key :: jsstring where
  "bob_key = str ''Version: 1'' @ [NL] @ str ''Comment: Bob <bob@x.org>''"

text \<open>
  The rooms that can arise: the constructor's room, then any sequence of connections,
  inbound payloads, close and error events, on any channel and with the host behaving in
  any way at each of them.
\<close>

definition new_room :: ChatRoom where
  "new_room = \<lparr>users = [], sessions = [], io = []\<rparr>"

inductive reachable :: "ChatRoom \<Rightarrow> bool" where
  constructed: "reachable new_room"
| connected: "reachable s \<Longrightarrow> reachable (handleSession webSocket s)"
| received: "reachable s \<Longrightarrow> reachable (on_message H webSocket parsed s)"
| closed: "reachable s \<Longrightarrow> reachable (on_close H webSocket s)"
| errored: "reachable s \<Longrightarrow> reachable (on_error H webSocket s)"

text \<open>
  A room that arises so: channels 3 and 2 connect; channel 3 registers, and the roster
  that follows cannot be delivered to it, which drops it from the session set; channel 3
  registers again, on a host on which no send throws.
\<close>

definition stale_room :: ChatRoom where
  "stale_room =
     on_message quiet_host 3 (Some register_alice)
       (on_message (roster_refusing 3) 3 (Some register_alice)
          (handleSession 2 (handleSession 3 new_room)))"
section \<open>The weak hash\<close>

lemma toInt32_mod: "toInt32 x mod 2 ^ 32 = x mod 2 ^ 32"
proof -
  have "((x + 2 ^ 31) mod 2 ^ 32 - 2 ^ 31) mod 2 ^ 32 = ((x + 2 ^ 31) - 2 ^ 31) mod (2 ^ 32 :: int)"
    by (rule mod_diff_left_eq)
  then show ?thesis by (simp add: toInt32_def)
qed

lemma toInt32_cong: "a mod 2 ^ 32 = b mod 2 ^ 32 \<Longrightarrow> toInt32 a = toInt32 b"
proof -
  assume h: "a mod 2 ^ 32 = b mod 2 ^ 32"
  have "(a + 2 ^ 31) mod 2 ^ 32 = (a mod 2 ^ 32 + 2 ^ 31) mod (2 ^ 32 :: int)"
    by (simp add: mod_add_left_eq)
  also have "\<dots> = (b + 2 ^ 31) mod 2 ^ 32"
    unfolding h by (simp add: mod_add_left_eq)
  finally show ?thesis by (simp add: toInt32_def)
qed

lemma toInt32_range: "- (2 ^ 31) \<le> toInt32 x \<and> toInt32 x < 2 ^ 31"
proof -
  have "0 \<le> (x + 2 ^ 31) mod (2 ^ 32 :: int)" "(x + 2 ^ 31) mod (2 ^ 32 :: int) < 2 ^ 32"
    by simp_all
  then show ?thesis by (simp add: toInt32_def)
qed

lemma toInt32_mult: "toInt32 (toInt32 a * b) = toInt32 (a * b)"
proof (rule toInt32_cong)
  have "toInt32 a * b mod 2 ^ 32 = (toInt32 a mod 2 ^ 32) * b mod 2 ^ 32"
    by (simp add: mod_mult_left_eq)
  also have "\<dots> = a * b mod 2 ^ 32"
    by (simp only: toInt32_mod mod_mult_left_eq)
  finally show "toInt32 a * b mod 2 ^ 32 = a * b mod 2 ^ 32" .
qed

lemma toInt32_diff_add: "toInt32 (toInt32 a - b + c) = toInt32 (a - b + c)"
proof (rule toInt32_cong)
  have shift: "(x - b + c) mod m = (x mod m - b + c) mod m" for x m :: int
    by (metis mod_add_left_eq mod_diff_left_eq)
  have "(toInt32 a - b + c) mod 2 ^ 32 = (toInt32 a mod 2 ^ 32 - b + c) mod 2 ^ 32"
    by (rule shift)
  also have "\<dots> = (a mod 2 ^ 32 - b + c) mod 2 ^ 32"
    by (simp only: toInt32_mod)
  also have "\<dots> = (a - b + c) mod 2 ^ 32"
    by (rule shift [symmetric])
  finally show "(toInt32 a - b + c) mod 2 ^ 32 = (a - b + c) mod 2 ^ 32" .
qed

lemma hash_step_spec: "hash_step h c = toInt32 (h * 31 + uint c)"
proof -
  have "hash_step h c = toInt32 (toInt32 (toInt32 h * 2 ^ 5) - h + uint c)"
    by (simp add: hash_step_def shl32_def and32_def Let_def)
  also have "\<dots> = toInt32 (h * 2 ^ 5 - h + uint c)"
    by (simp only: toInt32_mult toInt32_diff_add)
  also have "h * 2 ^ 5 - h + uint c = h * 31 + uint c"
    by simp
  finally show ?thesis .
qed

lemma hash_loop_spec: "hash_loop cs h = foldl (\<lambda>h c. toInt32 (h * 31 + uint c)) h cs"
  by (induction cs arbitrary: h) (simp_all add: hash_step_spec)

lemma hash_loop_range: "- (2 ^ 31) \<le> h \<Longrightarrow> h < 2 ^ 31 \<Longrightarrow> - (2 ^ 31) \<le> hash_loop cs h \<and> hash_loop cs h < 2 ^ 31"
proof (induction cs arbitrary: h)
  case Nil then show ?case by simp
next
  case (Cons c cs)
  show ?case using Cons.IH [of "hash_step h c"] toInt32_range [of "h * 31 + uint c"]
    by (simp add: hash_step_spec)
qed

lemma padStart_snoc: "padStart (Suc k) z (xs @ [d]) = padStart k z xs @ [d]"
  by (simp add: padStart_def)

lemma toString16_pad:
  "n < 16 ^ Suc k \<Longrightarrow>
   padStart (Suc k) (hexDigit 0) (toString16 n) = map (\<lambda>i. hexDigit (n div 16 ^ (k - i) mod 16)) [0..<Suc k]"
proof (induction k arbitrary: n)
  case 0
  then show ?case by (simp add: padStart_def)
next
  case (Suc k)
  have small: "n div 16 < 16 ^ Suc k" using Suc.prems by (simp add: less_mult_imp_div_less mult.commute)
  have ih: "padStart (Suc k) (hexDigit 0) (toString16 (n div 16))
              = map (\<lambda>i. hexDigit (n div 16 div 16 ^ (k - i) mod 16)) [0..<Suc k]"
    by (rule Suc.IH [OF small])
  have digits: "\<And>i. i < Suc k \<Longrightarrow> n div 16 div 16 ^ (k - i) = n div 16 ^ (Suc k - i)"
    by (simp add: div_mult2_eq Suc_diff_le)
  have rhs: "map (\<lambda>i. hexDigit (n div 16 ^ (Suc k - i) mod 16)) [0..<Suc (Suc k)]
           = map (\<lambda>i. hexDigit (n div 16 div 16 ^ (k - i) mod 16)) [0..<Suc k] @ [hexDigit (n mod 16)]"
    using digits by simp
  show ?case
  proof (cases "n < 16")
    case True
    then have z: "n div 16 = 0" by simp
    have "padStart (Suc (Suc k)) (hexDigit 0) (toString16 n) = replicate (Suc k) (hexDigit 0) @ [hexDigit n]"
      using True by (simp add: padStart_def)
    moreover have "padStart (Suc k) (hexDigit 0) (toString16 (n div 16)) = replicate (Suc k) (hexDigit 0)"
      unfolding z by (simp add: padStart_def replicate_append_same)
    ultimately show ?thesis using True ih rhs by simp
  next
    case False
    then have "toString16 n = toString16 (n div 16) @ [hexDigit (n mod 16)]" by simp
    then show ?thesis using ih rhs by (simp only: padStart_snoc)
  qed
qed

lemma zero_digit: "of_char CHR ''0'' = hexDigit 0"
  by (simp add: hexDigit_def str_def)

lemma generateUserIdFromKey_spec: "generateUserIdFromKey text = spec_fallback_id text"
proof -
  have r: "- (2 ^ 31) \<le> hash_loop text 0 \<and> hash_loop text 0 < 2 ^ 31"
    by (rule hash_loop_range) simp_all
  then have "nat \<bar>hash_loop text 0\<bar> < 16 ^ Suc 7" by (simp add: abs_if) arith
  then have "padStart (Suc 7) (hexDigit 0) (toString16 (nat \<bar>hash_loop text 0\<bar>))
      = map (\<lambda>i. hexDigit (nat \<bar>hash_loop text 0\<bar> div 16 ^ (7 - i) mod 16)) [0..<Suc 7]"
    by (rule toString16_pad)
  moreover have "Suc 7 = 8" by simp
  ultimately show ?thesis
    unfolding generateUserIdFromKey_def spec_fallback_id_def spec_hex8_def spec_rolling_hash_def zero_digit
      hash_loop_spec by (simp del: toString16.simps upt_Suc)
qed

section \<open>Containers, effects and the broadcast pass\<close>

subsection \<open>Containers\<close>

lemma live_append: "live (xs @ ys) = live xs @ live ys"
  by (induction xs rule: live.induct) simp_all

lemma live_set_delete_remove1: "live (set_delete v es) = remove1 v (live es)"
  by (induction es rule: live.induct) auto

lemma live_set_delete: "distinct (live es) \<Longrightarrow> live (set_delete v es) = removeAll v (live es)"
  by (simp add: live_set_delete_remove1 distinct_remove1_removeAll)

lemma length_set_delete: "length (set_delete v es) = length es"
  by (induction es) simp_all

text \<open>Deleting the value that the iterator is at leaves what lies ahead untouched.\<close>

lemma drop_set_delete:
  "i < length es \<Longrightarrow> es ! i = Some v \<Longrightarrow> drop (Suc i) (set_delete v es) = drop (Suc i) es"
proof (induction es arbitrary: i)
  case Nil
  then show ?case by simp
next
  case (Cons e es)
  show ?case
  proof (cases "e = Some v")
    case True
    then show ?thesis by simp
  next
    case False
    then obtain j where j: "i = Suc j" using Cons.prems by (cases i) auto
    then show ?thesis using Cons False by simp
  qed
qed

lemma set_live: "set (live es) = {v. Some v \<in> set es}"
  by (induction es rule: live.induct) auto

lemma live_set_add: "live (set_add v es) = (if v \<in> set (live es) then live es else live es @ [v])"
  by (simp add: set_add_def live_append set_live)

lemma map_of_map_set: "map_of (map_set k v m) = (map_of m)(k \<mapsto> v)"
  by (induction m) (auto simp: fun_eq_iff)

lemma map_get_map_set: "map_get k' (map_set k v m) = (if k' = k then Some v else map_get k' m)"
  by (simp add: map_get_def map_of_map_set)

lemma map_get_map_delete: "map_get k' (map_delete k m) = (if k' = k then None else map_get k' m)"
  by (induction m) (auto simp: map_get_def map_delete_def)

lemma keys_map_set: "set (map fst (map_set k v m)) = insert k (set (map fst m))"
proof -
  have "fst ` set (map_set k v m) = dom (map_of (map_set k v m))"
    by (simp add: dom_map_of_conv_image_fst)
  also have "\<dots> = insert k (dom (map_of m))"
    by (simp add: map_of_map_set)
  also have "\<dots> = insert k (fst ` set m)"
    by (simp add: dom_map_of_conv_image_fst)
  finally show ?thesis by simp
qed

lemma keys_map_delete: "map fst (map_delete k m) = removeAll k (map fst m)"
  by (induction m) (auto simp: map_delete_def)

subsection \<open>Effects\<close>

lemma emit_simps [simp]:
  "users (emit e s) = users s" "sessions (emit e s) = sessions s" "io (emit e s) = io s @ [e]"
  by (simp_all add: emit_def)

lemma JSON_stringify_simps [simp]:
  "users (JSON_stringify f s) = users s" "sessions (JSON_stringify f s) = sessions s"
  "io (JSON_stringify f s) = io s @ [Stringified f]"
  by (simp_all add: JSON_stringify_def)

lemma new_events_append: "io s' = io s @ evs \<Longrightarrow> new_events s s' = evs"
  by (simp add: new_events_def)

lemma attempts_append: "attempts (xs @ ys) = attempts xs @ attempts ys"
  by (induction xs rule: attempts.induct) simp_all

lemma failures_append: "failures (xs @ ys) = failures xs @ failures ys"
  by (induction xs rule: failures.induct) simp_all

lemma stringified_append: "stringified (xs @ ys) = stringified xs @ stringified ys"
  by (induction xs rule: stringified.induct) simp_all

lemma sendError_users [simp]: "users (sendError H w m s) = users s"
  by (simp add: sendError_def ws_send_def Let_def)

lemma sendError_sessions [simp]: "sessions (sendError H w m s) = sessions s"
  by (simp add: sendError_def ws_send_def Let_def)

lemma sendError_io:
  "io (sendError H w m s) =
     io s @ [Stringified (ErrorMessage m),
             if sendThrows H (io s @ [Stringified (ErrorMessage m)]) w (ErrorMessage m)
             then SendFailed w (ErrorMessage m) else Sent w (ErrorMessage m)]"
  by (simp add: sendError_def ws_send_def Let_def)

subsection \<open>The pass over a snapshot\<close>

lemma deliveries_attempts: "attempts (deliveries H f ts tr) = map (\<lambda>c. (c, f)) ts"
  by (induction ts arbitrary: tr) simp_all

lemma deliveries_stringified: "stringified (deliveries H f ts tr) = []"
  by (induction ts arbitrary: tr) simp_all

lemma deliveries_failures_subset: "set (failures (deliveries H f ts tr)) \<subseteq> set ts"
  by (induction ts arbitrary: tr) auto

lemma deliveries_never: "(\<And>tr c. \<not> sendThrows H tr c f) \<Longrightarrow> deliveries H f ts tr = map (\<lambda>c. Sent c f) ts"
  by (induction ts arbitrary: tr) simp_all

lemma spec_deliver_io: "io (spec_deliver H f ts s) = io s @ deliveries H f ts (io s)"
  by (induction ts arbitrary: s) simp_all

lemma spec_deliver_sessions:
  "sessions (spec_deliver H f ts s) = fold set_delete (failures (deliveries H f ts (io s))) (sessions s)"
  by (induction ts arbitrary: s) simp_all

lemma spec_deliver_users:
  "users (spec_deliver H f ts s) = fold map_delete (failures (deliveries H f ts (io s))) (users s)"
  by (induction ts arbitrary: s) simp_all

lemma live_fold_set_delete:
  "distinct (live es) \<Longrightarrow> live (fold set_delete F es) = filter (\<lambda>c. c \<notin> set F) (live es)"
proof (induction F arbitrary: es)
  case Nil then show ?case by simp
next
  case (Cons v F)
  have d: "distinct (live (set_delete v es))"
    using Cons.prems by (simp add: live_set_delete_remove1)
  have "live (fold set_delete (v # F) es) = filter (\<lambda>c. c \<notin> set F) (removeAll v (live es))"
    using Cons.IH [OF d] Cons.prems by (simp add: live_set_delete)
  also have "\<dots> = filter (\<lambda>c. c \<notin> set (v # F)) (live es)"
    by (auto simp: removeAll_filter_not_eq intro: filter_cong)
  finally show ?case .
qed

lemma fold_map_delete: "fold map_delete F m = filter (\<lambda>entry. fst entry \<notin> set F) m"
proof (induction F arbitrary: m)
  case Nil then show ?case by simp
next
  case (Cons v F)
  have "fold map_delete (v # F) m = filter (\<lambda>entry. fst entry \<notin> set F) (map_delete v m)"
    by (simp add: Cons.IH)
  also have "\<dots> = filter (\<lambda>entry. fst entry \<notin> set (v # F)) m"
    unfolding map_delete_def by (auto intro: filter_cong)
  finally show ?case .
qed

subsection \<open>The live iteration is the pass over the snapshot\<close>

lemma broadcast_from_snapshot:
  "broadcast_from H f i s = spec_deliver H f (live (drop i (sessions s))) s"
proof (induction H f i s rule: broadcast_from.induct)
  case (1 H f i s)
  show ?case
  proof (cases "i < length (sessions s)")
    case False
    then show ?thesis by (simp add: broadcast_from.simps [of H f i s])
  next
    case True
    then have split: "drop i (sessions s) = sessions s ! i # drop (Suc i) (sessions s)"
      by (simp add: Cons_nth_drop_Suc)
    show ?thesis
    proof (cases "sessions s ! i")
      case None
      have "broadcast_from H f (i + 1) s = spec_deliver H f (live (drop (i + 1) (sessions s))) s"
        using "1.IH"(1) True None by simp
      then show ?thesis
        using True None split by (simp add: broadcast_from.simps [of H f i s])
    next
      case (Some session)
      show ?thesis
      proof (cases "sendThrows H (io s) session f")
        case False
        have "broadcast_from H f (i + 1) (emit (Sent session f) s)
              = spec_deliver H f (live (drop (i + 1) (sessions (emit (Sent session f) s)))) (emit (Sent session f) s)"
          using "1.IH"(3) [OF True Some False] by simp
        then show ?thesis
          using True Some False split by (simp add: broadcast_from.simps [of H f i s])
      next
        case throws: True
        let ?s' = "(emit (SendFailed session f) s)
                    \<lparr>sessions := set_delete session (sessions s), users := map_delete session (users s)\<rparr>"
        have same: "live (drop (Suc i) (sessions ?s')) = live (drop (Suc i) (sessions s))"
          using True Some by (simp add: drop_set_delete)
        have "broadcast_from H f (i + 1) ?s' = spec_deliver H f (live (drop (i + 1) (sessions ?s'))) ?s'"
          using "1.IH"(2) [OF True Some throws] by simp
        then show ?thesis
          using True Some throws split same by (simp add: broadcast_from.simps [of H f i s])
      qed
    qed
  qed
qed

lemma broadcast_snapshot: "broadcast H f s = spec_broadcast H f s"
  using broadcast_from_snapshot [of H f 0 "JSON_stringify f s"]
  by (simp add: broadcast_def spec_broadcast_def)

lemma extractUserProfile_id:
  "\<exists>p. extractUserProfile H k = Some p \<and> p_id p = spec_identity_id (readKey H) (toUpperCase H) k"
  by (cases "readKey H k")
     (auto simp: extractUserProfile_def extract_try_def fallbackExtractUserProfile_def
        spec_identity_id_def generateUserIdFromKey_spec Let_def
        split: primaryUser.splits option.splits prod.splits)

subsection \<open>The broadcast pass\<close>

lemma spec_broadcast_new:
  "io (spec_broadcast H f s) = io s @ Stringified f # deliveries H f (live (sessions s)) (io s @ [Stringified f])"
  by (simp add: spec_broadcast_def spec_deliver_io)

lemma spec_broadcast_sessions:
  "wf_sessions s \<Longrightarrow>
   live (sessions (spec_broadcast H f s))
     = filter (\<lambda>c. c \<notin> set (failures (deliveries H f (live (sessions s)) (io s @ [Stringified f])))) (live (sessions s))"
  by (simp add: spec_broadcast_def spec_deliver_sessions live_fold_set_delete wf_sessions_def)

lemma spec_broadcast_users:
  "users (spec_broadcast H f s)
     = filter (\<lambda>entry. fst entry \<notin> set (failures (deliveries H f (live (sessions s)) (io s @ [Stringified f])))) (users s)"
  by (simp add: spec_broadcast_def spec_deliver_users fold_map_delete)

subsection \<open>The directory invariants\<close>

lemma unique_ids_alt: "unique_ids m = distinct (map (\<lambda>entry. u_id (snd entry)) m)"
  by (simp add: unique_ids_def map_values_def comp_def)

lemma wf_users_filter: "wf_users m \<Longrightarrow> wf_users (filter P m)"
  by (simp add: wf_users_def distinct_map_filter list_all_iff)

lemma unique_ids_filter: "unique_ids m \<Longrightarrow> unique_ids (filter P m)"
  unfolding unique_ids_alt by (rule distinct_map_filter)

lemma wf_users_map_delete: "wf_users m \<Longrightarrow> wf_users (map_delete k m)"
  unfolding map_delete_def by (rule wf_users_filter)

lemma unique_ids_map_delete: "unique_ids m \<Longrightarrow> unique_ids (map_delete k m)"
  unfolding map_delete_def by (rule unique_ids_filter)

lemma set_map_set:
  "distinct (map fst m) \<Longrightarrow> set (map_set k v m) = insert (k, v) {e \<in> set m. fst e \<noteq> k}"
proof (induction m)
  case Nil
  then show ?case by simp
next
  case (Cons a m)
  obtain k' v' where a: "a = (k', v')" by (cases a)
  have d: "distinct (map fst m)" using Cons.prems by simp
  show ?case
  proof (cases "k' = k")
    case True
    then have "k \<notin> fst ` set m" using Cons.prems a by simp
    then have "\<And>e. e \<in> set m \<Longrightarrow> fst e \<noteq> k" by force
    then have "{e \<in> set m. fst e \<noteq> k} = set m" by blast
    moreover have "{e \<in> set (a # m). fst e \<noteq> k} = {e \<in> set m. fst e \<noteq> k}"
      using True a by auto
    moreover have "set (map_set k v (a # m)) = insert (k, v) (set m)"
      using True a by simp
    ultimately show ?thesis by simp
  next
    case False
    have "{e \<in> set (a # m). fst e \<noteq> k} = insert a {e \<in> set m. fst e \<noteq> k}"
      using False a by auto
    moreover have "set (map_set k v (a # m)) = insert a (set (map_set k v m))"
      using False a by simp
    ultimately show ?thesis using Cons.IH [OF d] by (simp add: insert_commute)
  qed
qed

lemma wf_users_map_set:
  assumes "wf_users m" and "u_webSocket v = k"
  shows "wf_users (map_set k v m)"
proof -
  have d: "distinct (map fst m)" using assms(1) by (simp add: wf_users_def)
  have "distinct (map fst (map_set k v m))"
    using d
  proof (induction m)
    case Nil
    then show ?case by simp
  next
    case (Cons a m)
    obtain k' v' where a: "a = (k', v')" by (cases a)
    show ?case
    proof (cases "k' = k")
      case True
      then show ?thesis using Cons.prems a by simp
    next
      case False
      have "k' \<notin> set (map fst (map_set k v m))"
        using Cons.prems a False by (simp only: keys_map_set) simp
      then show ?thesis using Cons a False by simp
    qed
  qed
  moreover have "list_all (\<lambda>entry. u_webSocket (snd entry) = fst entry) (map_set k v m)"
    using assms by (auto simp: list_all_iff set_map_set [OF d] wf_users_def)
  ultimately show ?thesis by (simp add: wf_users_def)
qed

lemma unique_ids_map_set:
  assumes "wf_users m" and "unique_ids m" and "u_webSocket v = k"
    and fresh: "\<And>entry. entry \<in> set m \<Longrightarrow> fst entry \<noteq> k \<Longrightarrow> u_id (snd entry) \<noteq> u_id v"
  shows "unique_ids (map_set k v m)"
proof -
  have d: "distinct (map fst m)" using assms(1) by (simp add: wf_users_def)
  have inj: "inj_on (\<lambda>entry. u_id (snd entry)) (set m)"
    using assms(2) by (simp add: unique_ids_alt distinct_map)
  have "wf_users (map_set k v m)" using assms(1,3) by (rule wf_users_map_set)
  then have "distinct (map fst (map_set k v m))" by (simp add: wf_users_def)
  then have d': "distinct (map_set k v m)" by (rule distinct_map [THEN iffD1, THEN conjunct1])
  have "inj_on (\<lambda>entry. u_id (snd entry)) (insert (k, v) {e \<in> set m. fst e \<noteq> k})"
    unfolding inj_on_def
  proof (intro ballI impI)
    fix x y
    assume x: "x \<in> insert (k, v) {e \<in> set m. fst e \<noteq> k}"
      and y: "y \<in> insert (k, v) {e \<in> set m. fst e \<noteq> k}"
      and same: "u_id (snd x) = u_id (snd y)"
    show "x = y"
    proof (cases "x = (k, v)")
      case True
      show ?thesis
      proof (cases "y = (k, v)")
        case True
        then show ?thesis using \<open>x = (k, v)\<close> by simp
      next
        case False
        then have "y \<in> set m" "fst y \<noteq> k" using y by simp_all
        then have "u_id (snd y) \<noteq> u_id v" by (rule fresh)
        then show ?thesis using same True by simp
      qed
    next
      case False
      then have xm: "x \<in> set m" "fst x \<noteq> k" using x by simp_all
      show ?thesis
      proof (cases "y = (k, v)")
        case True
        have "u_id (snd x) \<noteq> u_id v" using xm by (rule fresh)
        then show ?thesis using same True by simp
      next
        case False
        then have "y \<in> set m" using y by simp
        then show ?thesis using inj xm(1) same by (simp add: inj_on_def)
      qed
    qed
  qed
  then have "inj_on (\<lambda>entry. u_id (snd entry)) (set (map_set k v m))"
    by (simp only: set_map_set [OF d])
  then show ?thesis using d' by (simp add: unique_ids_alt distinct_map)
qed

lemma findUserById_Some: "findUserById i us = Some e \<Longrightarrow> e \<in> set us \<and> u_id e = i"
  by (induction us) (auto split: if_splits)

lemma findUserById_None: "findUserById i us = None \<Longrightarrow> u \<in> set us \<Longrightarrow> u_id u \<noteq> i"
  by (induction us) (auto split: if_splits)

lemma unique_entry:
  assumes "unique_ids m" and "e1 \<in> set m" and "e2 \<in> set m" and "u_id (snd e1) = u_id (snd e2)"
  shows "e1 = e2"
proof -
  have "inj_on (\<lambda>entry. u_id (snd entry)) (set m)"
    using assms(1) by (simp add: unique_ids_alt distinct_map)
  then show ?thesis using assms(2-4) by (auto simp: inj_on_def)
qed

lemma filter_eq_single: "distinct xs \<Longrightarrow> x \<in> set xs \<Longrightarrow> filter (\<lambda>y. y = x) xs = [x]"
proof (induction xs)
  case Nil
  then show ?case by simp
next
  case (Cons a xs)
  show ?case
  proof (cases "a = x")
    case True
    then have "x \<notin> set xs" using Cons.prems by simp
    then have "filter (\<lambda>y. y = x) xs = []" by (auto simp: filter_empty_conv)
    then show ?thesis using True by simp
  next
    case False
    then show ?thesis using Cons by simp
  qed
qed

lemma bound_to_unique:
  assumes "wf_users m" and "unique_ids m" and "(k, u) \<in> set m"
  shows "bound_to (u_id u) m = [k]"
proof -
  have d: "distinct m"
    using assms(1) by (simp add: wf_users_def distinct_map)
  have "filter (\<lambda>entry. u_id (snd entry) = u_id u) m = filter (\<lambda>entry. entry = (k, u)) m"
  proof (rule filter_cong [OF refl])
    fix entry assume "entry \<in> set m"
    then show "(u_id (snd entry) = u_id u) = (entry = (k, u))"
      using unique_entry [OF assms(2) _ assms(3), of entry] by auto
  qed
  also have "\<dots> = [(k, u)]"
    using d assms(3) by (rule filter_eq_single)
  finally show ?thesis by (simp add: bound_to_def)
qed

lemma bound_to_filter_keys:
  "bound_to i (filter (\<lambda>entry. fst entry \<notin> F) m) = filter (\<lambda>k. k \<notin> F) (bound_to i m)"
  by (induction m) (auto simp: bound_to_def)

lemma bound_to_none: "(\<And>entry. entry \<in> set m \<Longrightarrow> u_id (snd entry) \<noteq> i) \<Longrightarrow> bound_to i m = []"
  by (simp add: bound_to_def filter_empty_conv)

subsection \<open>Broadcasts from a well-formed room\<close>

lemma broadcast_io: "io (broadcast H f s) = io s @ pass_events H f s"
  by (simp add: broadcast_snapshot spec_broadcast_new pass_events_def)

lemma broadcast_sessions:
  "wf_sessions s \<Longrightarrow>
   live (sessions (broadcast H f s))
     = filter (\<lambda>c. c \<notin> set (failures (pass_events H f s))) (live (sessions s))"
  by (simp add: broadcast_snapshot spec_broadcast_sessions pass_events_def)

lemma broadcast_users:
  "users (broadcast H f s)
     = filter (\<lambda>entry. fst entry \<notin> set (failures (pass_events H f s))) (users s)"
  by (simp add: broadcast_snapshot spec_broadcast_users pass_events_def)

lemma pass_events_attempts: "attempts (pass_events H f s) = map (\<lambda>c. (c, f)) (live (sessions s))"
  by (simp add: pass_events_def deliveries_attempts)

lemma pass_events_stringified: "stringified (pass_events H f s) = [f]"
  by (simp add: pass_events_def deliveries_stringified)

lemma pass_events_failures: "set (failures (pass_events H f s)) \<subseteq> set (live (sessions s))"
  using deliveries_failures_subset [of H f "live (sessions s)"] by (simp add: pass_events_def)

lemma broadcast_wf_sessions: "wf_sessions s \<Longrightarrow> wf_sessions (broadcast H f s)"
  by (simp add: wf_sessions_def broadcast_sessions [unfolded wf_sessions_def])

lemma broadcast_wf_users: "wf_sessions s \<Longrightarrow> wf_users (users s) \<Longrightarrow> wf_users (users (broadcast H f s))"
  by (simp add: broadcast_users wf_users_filter)

lemma broadcast_unique_ids: "wf_sessions s \<Longrightarrow> unique_ids (users s) \<Longrightarrow> unique_ids (users (broadcast H f s))"
  by (simp add: broadcast_users unique_ids_filter)

subsection \<open>The eviction block\<close>

lemma register_evict_stays:
  "ex = None \<or> (\<exists>e. ex = Some e \<and> u_webSocket e = ws) \<Longrightarrow> register_evict H ws ex s = (Normal, s)"
  by (auto simp: register_evict_def)

lemma register_evict_other:
  "u_webSocket e \<noteq> ws \<Longrightarrow>
   register_evict H ws (Some e) s =
     (if closeThrows H (io s) (u_webSocket e)
      then (Thrown, emit (CloseFailed (u_webSocket e)) (s\<lparr>users := map_delete (u_webSocket e) (users s)\<rparr>))
      else (Normal, emit (Closed (u_webSocket e)) (s\<lparr>users := map_delete (u_webSocket e) (users s)\<rparr>)))"
  by (simp add: register_evict_def ws_close_def)

lemma register_evict_sessions: "sessions (snd (register_evict H ws ex s)) = sessions s"
  by (simp add: register_evict_def ws_close_def split: option.splits)

lemma register_evict_users:
  "users (snd (register_evict H ws ex s)) =
     (case ex of None \<Rightarrow> users s
      | Some e \<Rightarrow> if u_webSocket e \<noteq> ws then map_delete (u_webSocket e) (users s) else users s)"
  by (simp add: register_evict_def ws_close_def split: option.splits)

lemma register_evict_wf:
  "wf_users (users s) \<Longrightarrow> wf_users (users (snd (register_evict H ws ex s)))"
  by (simp add: register_evict_users wf_users_map_delete split: option.splits)

lemma register_evict_unique:
  "unique_ids (users s) \<Longrightarrow> unique_ids (users (snd (register_evict H ws ex s)))"
  by (simp add: register_evict_users unique_ids_map_delete split: option.splits)

text \<open>After the eviction block no entry of another channel carries the id.\<close>

lemma register_evict_fresh:
  assumes wf: "wf_users m" and un: "unique_ids m" and m: "m = users s"
    and ex: "ex = findUserById i (map_values m)"
    and entry: "entry \<in> set (users (snd (register_evict H ws ex s)))" and other: "fst entry \<noteq> ws"
  shows "u_id (snd entry) \<noteq> i"
proof (cases ex)
  case None
  then have "entry \<in> set m" using entry m by (simp add: register_evict_users)
  then have "snd entry \<in> set (map_values m)" by (simp add: map_values_def)
  then show ?thesis using None ex findUserById_None [of i "map_values m" "snd entry"] by simp
next
  case (Some e)
  then have found: "e \<in> set (map_values m)" "u_id e = i"
    using ex findUserById_Some [of i "map_values m" e] by simp_all
  then obtain k where k: "(k, e) \<in> set m" by (auto simp: map_values_def)
  then have key: "u_webSocket e = k" using wf by (auto simp: wf_users_def list_all_iff)
  have inm: "entry \<in> set m"
    using entry m Some by (auto simp: register_evict_users map_delete_def split: if_splits)
  show ?thesis
  proof
    assume "u_id (snd entry) = i"
    then have "entry = (k, e)"
      using unique_entry [OF un inm k] found(2) by simp
    then have "fst entry = u_webSocket e" using key by simp
    then show False
      using entry m Some other by (auto simp: register_evict_users map_delete_def split: if_splits)
  qed
qed

subsection \<open>Registration\<close>

lemma ws_send_simps [simp]:
  "users (snd (ws_send H w f s)) = users s" "sessions (snd (ws_send H w f s)) = sessions s"
  "io (snd (ws_send H w f s)) = io s @ [if sendThrows H (io s) w f then SendFailed w f else Sent w f]"
  "fst (ws_send H w f s) = (if sendThrows H (io s) w f then Thrown else Normal)"
  by (simp_all add: ws_send_def)

lemma room_inv_cong:
  "users s' = users s \<Longrightarrow> sessions s' = sessions s \<Longrightarrow> room_inv s' = room_inv s"
  by (simp add: room_inv_def wf_sessions_def)

lemma sendError_inv [simp]: "room_inv (sendError H w m s) = room_inv s"
  by (rule room_inv_cong) simp_all

lemma broadcast_inv: "room_inv s \<Longrightarrow> room_inv (broadcast H f s)"
  by (simp add: room_inv_def broadcast_wf_sessions broadcast_wf_users broadcast_unique_ids)

lemma new_userInfo_simps [simp]:
  "u_id (new_userInfo ws k p) = p_id p" "u_webSocket (new_userInfo ws k p) = ws"
  "u_name (new_userInfo ws k p) = p_name p" "u_email (new_userInfo ws k p) = p_email p"
  "u_publicKey (new_userInfo ws k p) = k"
  by (simp_all add: new_userInfo_def)

lemma UserProfile_eta: "\<lparr>p_id = p_id p, p_name = p_name p, p_email = p_email p\<rparr> = p"
  by (cases p) simp

text \<open>The body of the \<open>try\<close> on a frame that passes the checks.\<close>

lemma register_try_valid:
  assumes "property message (str ''publicKey'') = Some (Some (JStr k))" and "k \<noteq> []"
    and "isValidPGPPublicKey k" and "extractUserProfile H k = Some p"
  shows "register_try H ws message s =
     (case register_evict H ws (findUserById (p_id p) (map_values (users s))) s of
        (Thrown, s1) \<Rightarrow> (Thrown, s1)
      | (Normal, s1) \<Rightarrow>
          (case ws_send H ws (RegisteredMessage p)
                  (JSON_stringify (RegisteredMessage p)
                     (s1\<lparr>users := map_set ws (new_userInfo ws k p) (users s1)\<rparr>)) of
             (Thrown, s3) \<Rightarrow> (Thrown, s3)
           | (Normal, s3) \<Rightarrow> (Normal, broadcastUserList H s3)))"
  using assms
  by (simp add: register_try_def Let_def UserProfile_eta cong: prod.case_cong completion.case_cong)

lemma bind_inv:
  assumes inv: "room_inv s" and ex: "ex = findUserById (p_id p) (map_values (users s))"
    and s1: "s1 = snd (register_evict H ws ex s)"
  shows "room_inv (s1\<lparr>users := map_set ws (new_userInfo ws k p) (users s1)\<rparr>)"
proof -
  have wf1: "wf_users (users s1)" and un1: "unique_ids (users s1)" and se1: "sessions s1 = sessions s"
    using inv s1 by (simp_all add: room_inv_def register_evict_wf register_evict_unique register_evict_sessions)
  have fresh: "\<And>entry. entry \<in> set (users s1) \<Longrightarrow> fst entry \<noteq> ws
      \<Longrightarrow> u_id (snd entry) \<noteq> u_id (new_userInfo ws k p)"
    using register_evict_fresh [of "users s" s ex "p_id p" _ H ws] inv ex s1
    by (simp add: room_inv_def)
  have "wf_users (map_set ws (new_userInfo ws k p) (users s1))"
    using wf1 by (rule wf_users_map_set) simp
  moreover have "unique_ids (map_set ws (new_userInfo ws k p) (users s1))"
    using wf1 un1 _ fresh by (rule unique_ids_map_set) simp
  ultimately show ?thesis using inv se1 by (simp add: room_inv_def wf_sessions_def)
qed

lemma register_evict_inv: "room_inv s \<Longrightarrow> room_inv (snd (register_evict H ws ex s))"
  by (simp add: room_inv_def register_evict_wf register_evict_unique register_evict_sessions wf_sessions_def)

lemma register_try_inv: "room_inv s \<Longrightarrow> room_inv (snd (register_try H ws message s))"
proof -
  assume inv: "room_inv s"
  show ?thesis
  proof (cases "\<exists>k p. property message (str ''publicKey'') = Some (Some (JStr k)) \<and> k \<noteq> []
                  \<and> isValidPGPPublicKey k \<and> extractUserProfile H k = Some p")
    case False
    then show ?thesis using inv
      by (auto simp: register_try_def Let_def split: option.splits jsval.splits elim!: typeof_string.elims)
  next
    case True
    then obtain k p where v: "property message (str ''publicKey'') = Some (Some (JStr k))" "k \<noteq> []"
        "isValidPGPPublicKey k" "extractUserProfile H k = Some p" by blast
    define ex where "ex = findUserById (p_id p) (map_values (users s))"
    define s1 where "s1 = snd (register_evict H ws ex s)"
    define s2 where "s2 = s1\<lparr>users := map_set ws (new_userInfo ws k p) (users s1)\<rparr>"
    define s3 where "s3 = snd (ws_send H ws (RegisteredMessage p) (JSON_stringify (RegisteredMessage p) s2))"
    have i1: "room_inv s1" using inv by (simp add: s1_def register_evict_inv)
    have i2: "room_inv s2" unfolding s2_def using inv ex_def s1_def by (rule bind_inv)
    have i3: "room_inv s3" using i2 unfolding s3_def
      by (subst room_inv_cong [of _ s2]) simp_all
    have i4: "room_inv (broadcastUserList H s3)" using i3 by (simp add: broadcastUserList_def broadcast_inv)
    show ?thesis
      unfolding register_try_valid [OF v]
      using i1 i3 i4 unfolding s3_def s2_def s1_def ex_def
      by (auto split: prod.splits completion.splits)
  qed
qed

lemma handleRegister_inv: "room_inv s \<Longrightarrow> room_inv (handleRegister H ws message s)"
  using register_try_inv [of s H ws message]
  by (auto simp: handleRegister_def split: prod.splits completion.splits)

lemma register_outcome:
  fixes ws :: ws and s :: ChatRoom
  assumes v: "property message (str ''publicKey'') = Some (Some (JStr k))" "k \<noteq> []"
    "isValidPGPPublicKey k" "extractUserProfile H k = Some p"
  defines "s1 \<equiv> snd (register_evict H ws (findUserById (p_id p) (map_values (users s))) s)"
  defines "s2 \<equiv> JSON_stringify (RegisteredMessage p) (s1\<lparr>users := map_set ws (new_userInfo ws k p) (users s1)\<rparr>)"
  shows "register_try H ws message s =
     (if fst (register_evict H ws (findUserById (p_id p) (map_values (users s))) s) = Thrown
      then (Thrown, s1)
      else if sendThrows H (io s2) ws (RegisteredMessage p)
      then (Thrown, emit (SendFailed ws (RegisteredMessage p)) s2)
      else (Normal, broadcastUserList H (emit (Sent ws (RegisteredMessage p)) s2)))"
proof (cases "register_evict H ws (findUserById (p_id p) (map_values (users s))) s")
  case (Pair c t)
  then have t: "t = s1" by (simp add: s1_def)
  show ?thesis
    unfolding register_try_valid [OF v] Pair
    by (cases c) (simp_all add: t s2_def ws_send_def)
qed

lemma register_evict_io:
  "io (snd (register_evict H ws ex s)) =
     io s @ (case ex of None \<Rightarrow> []
             | Some e \<Rightarrow> if u_webSocket e \<noteq> ws
                        then [if closeThrows H (io s) (u_webSocket e)
                              then CloseFailed (u_webSocket e) else Closed (u_webSocket e)]
                        else [])"
  by (simp add: register_evict_def ws_close_def split: option.splits)

lemma register_evict_fst:
  "fst (register_evict H ws ex s) =
     (case ex of None \<Rightarrow> Normal
      | Some e \<Rightarrow> if u_webSocket e \<noteq> ws \<and> closeThrows H (io s) (u_webSocket e) then Thrown else Normal)"
  by (simp add: register_evict_def ws_close_def split: option.splits)

lemma map_get_filter_None: "map_get k m = None \<Longrightarrow> map_get k (filter P m) = None"
  by (induction m) (auto simp: map_get_def split: if_splits)

lemma broadcastUserList_io:
  "wf_sessions s \<Longrightarrow>
   io (broadcastUserList H s) = io s @ pass_events H (UserListMessage (userList (users s))) s"
  by (simp add: broadcastUserList_def broadcast_io)

lemma broadcastUserList_users:
  "wf_sessions s \<Longrightarrow>
   users (broadcastUserList H s)
     = filter (\<lambda>entry. fst entry \<notin> set (failures (pass_events H (UserListMessage (userList (users s))) s)))
         (users s)"
  by (simp add: broadcastUserList_def broadcast_users)

lemma broadcastUserList_sessions:
  "wf_sessions s \<Longrightarrow>
   live (sessions (broadcastUserList H s))
     = filter (\<lambda>c. c \<notin> set (failures (pass_events H (UserListMessage (userList (users s))) s)))
         (live (sessions s))"
  by (simp add: broadcastUserList_def broadcast_sessions)

text \<open>A registration that completes, spelled out.\<close>

lemma register_completed:
  fixes ws :: ws and s :: ChatRoom
  assumes wf: "wf_sessions s"
    and v: "property message (str ''publicKey'') = Some (Some (JStr k))" "k \<noteq> []"
    "isValidPGPPublicKey k" "extractUserProfile H k = Some p"
    and fin: "register_try H ws message s = (Normal, s')"
  defines "s1 \<equiv> snd (register_evict H ws (findUserById (p_id p) (map_values (users s))) s)"
  defines "m2 \<equiv> map_set ws (new_userInfo ws k p) (users s1)"
  defines "s3 \<equiv> emit (Sent ws (RegisteredMessage p))
                  (JSON_stringify (RegisteredMessage p) (s1\<lparr>users := m2\<rparr>))"
  shows "fst (register_evict H ws (findUserById (p_id p) (map_values (users s))) s) = Normal"
    and "s' = broadcastUserList H s3"
    and "io s' = io s1 @ [Stringified (RegisteredMessage p), Sent ws (RegisteredMessage p)]
                 @ pass_events H (UserListMessage (userList m2)) s3"
    and "users s' = filter (\<lambda>entry. fst entry \<notin> set (failures (pass_events H (UserListMessage (userList m2)) s3))) m2"
    and "live (sessions s') = filter (\<lambda>c. c \<notin> set (failures (pass_events H (UserListMessage (userList m2)) s3))) (live (sessions s))"
    and "live (sessions s3) = live (sessions s)"
proof -
  note out = register_outcome [OF v, of ws s]
  show n: "fst (register_evict H ws (findUserById (p_id p) (map_values (users s))) s) = Normal"
    using fin unfolding out by (auto split: if_splits intro: completion.exhaust)
  show s': "s' = broadcastUserList H s3"
    using fin n unfolding out s3_def m2_def s1_def by (auto split: if_splits)
  have se3: "sessions s3 = sessions s"
    by (simp add: s3_def s1_def register_evict_sessions)
  then have wf3: "wf_sessions s3" using wf by (simp add: wf_sessions_def)
  have u3: "users s3 = m2" by (simp add: s3_def)
  show "io s' = io s1 @ [Stringified (RegisteredMessage p), Sent ws (RegisteredMessage p)]
                 @ pass_events H (UserListMessage (userList m2)) s3"
    unfolding s' broadcastUserList_io [OF wf3] u3 by (simp add: s3_def)
  show "users s' = filter (\<lambda>entry. fst entry \<notin> set (failures (pass_events H (UserListMessage (userList m2)) s3))) m2"
    unfolding s' broadcastUserList_users [OF wf3] u3 ..
  show "live (sessions s') = filter (\<lambda>c. c \<notin> set (failures (pass_events H (UserListMessage (userList m2)) s3))) (live (sessions s))"
    unfolding s' broadcastUserList_sessions [OF wf3] u3 se3 ..
  show "live (sessions s3) = live (sessions s)" by (simp add: se3)
qed

lemma map_set_mem: "(k, v) \<in> set (map_set k v m)"
  by (induction m) auto

lemma failures_pass_only:
  "failures (pre @ [Stringified f, Sent w f] @ rest) = failures pre @ failures rest"
  by (simp add: failures_append)

lemma register_evict_io_other:
  "u_webSocket e \<noteq> ws \<Longrightarrow> fst (register_evict H ws (Some e) s) = Normal \<Longrightarrow>
   io (snd (register_evict H ws (Some e) s)) = io s @ [Closed (u_webSocket e)]"
  by (simp add: register_evict_io register_evict_fst split: if_splits)

lemma register_evict_failures: "failures (new_events s (snd (register_evict H ws ex s))) = []"
  by (simp add: new_events_def register_evict_io split: option.splits)

lemma set_delete_wf: "wf_sessions s \<Longrightarrow> wf_sessions (s\<lparr>sessions := set_delete w (sessions s), users := m\<rparr>)"
  by (simp add: wf_sessions_def live_set_delete_remove1)

lemma handleDisconnect_sessions:
  "wf_sessions s \<Longrightarrow> w \<notin> set (live (sessions (handleDisconnect H w s)))"
proof -
  assume wf: "wf_sessions s"
  let ?s = "s\<lparr>sessions := set_delete w (sessions s), users := map_delete w (users s)\<rparr>"
  have "wf_sessions ?s" using wf by (rule set_delete_wf)
  then have "live (sessions (broadcastUserList H ?s))
     = filter (\<lambda>c. c \<notin> set (failures (pass_events H (UserListMessage (userList (users ?s))) ?s)))
         (live (sessions ?s))"
    by (rule broadcastUserList_sessions)
  then show ?thesis
    using wf by (simp add: handleDisconnect_def live_set_delete wf_sessions_def)
qed

subsection \<open>The example room\<close>

lemma alice_key_valid: "alice_key \<noteq> [] \<and> isValidPGPPublicKey alice_key"
  by (simp add: alice_key_def isValidPGPPublicKey_def str_def)

lemma alice_userid: "parse_userIdString (str ''Alice <alice@x.com>'') = (str ''Alice'', str ''alice@x.com'')"
  by (simp add: parse_userIdString_def match_userid_def userid_tail_def trim_def str_def
      isLineTerminator_def isWhiteSpace_def LT_def GT_def)

lemma sample_extract: "extractUserProfile sample_host alice_key = Some alice_profile"
  by (simp add: extractUserProfile_def extract_try_def sample_host_def alice_userid alice_profile_def)
     (simp add: str_def ascii_upper_def)

lemma extractUserProfile_host:
  "readKey H' = readKey H \<Longrightarrow> toUpperCase H' = toUpperCase H \<Longrightarrow> toLowerCase H' = toLowerCase H \<Longrightarrow>
   randomSuffix H' = randomSuffix H \<Longrightarrow> extractUserProfile H' k = extractUserProfile H k"
  by (auto simp: extractUserProfile_def extract_try_def fallbackExtractUserProfile_def Let_def
      split: option.splits primaryUser.splits prod.splits)

subsection \<open>Running a registration\<close>

lemma register_try_fst:
  fixes ws :: ws and s :: ChatRoom
  assumes "property message (str ''publicKey'') = Some (Some (JStr k))" "k \<noteq> []"
    "isValidPGPPublicKey k" "extractUserProfile H k = Some p"
  shows "fst (register_try H ws message s) =
     (if fst (register_evict H ws (findUserById (p_id p) (map_values (users s))) s) = Thrown
       \<or> sendThrows H
            (io (snd (register_evict H ws (findUserById (p_id p) (map_values (users s))) s))
               @ [Stringified (RegisteredMessage p)]) ws (RegisteredMessage p)
      then Thrown else Normal)"
  unfolding register_outcome [OF assms] by simp

lemma register_try_Normal:
  "fst (register_try H ws message s) = Normal \<Longrightarrow>
   register_try H ws message s = (Normal, handleRegister H ws message s)"
  by (cases "register_try H ws message s") (simp add: handleRegister_def)

lemma register_try_Thrown:
  "fst (register_try H ws message s) = Thrown \<Longrightarrow>
   register_try H ws message s = (Thrown, snd (register_try H ws message s))"
  by (cases "register_try H ws message s") simp

lemma register_alice_key: "property register_alice (str ''publicKey'') = Some (Some (JStr alice_key))"
  by (simp add: register_alice_def str_def)

lemma host_extracts:
  "extractUserProfile (sample_host\<lparr>sendThrows := a\<rparr>) alice_key = Some alice_profile"
  "extractUserProfile (sample_host\<lparr>closeThrows := b\<rparr>) alice_key = Some alice_profile"
proof -
  have "extractUserProfile (sample_host\<lparr>sendThrows := a\<rparr>) alice_key = extractUserProfile sample_host alice_key"
    by (rule extractUserProfile_host) simp_all
  then show "extractUserProfile (sample_host\<lparr>sendThrows := a\<rparr>) alice_key = Some alice_profile"
    by (simp add: sample_extract)
  have "extractUserProfile (sample_host\<lparr>closeThrows := b\<rparr>) alice_key = extractUserProfile sample_host alice_key"
    by (rule extractUserProfile_host) simp_all
  then show "extractUserProfile (sample_host\<lparr>closeThrows := b\<rparr>) alice_key = Some alice_profile"
    by (simp add: sample_extract)
qed

lemma sample_room_inv: "room_inv sample_room"
  by (simp add: room_inv_def wf_sessions_def wf_users_def unique_ids_def sample_room_def alice_def map_values_def)

lemma sample_room_found: "findUserById (p_id alice_profile) (map_values (users sample_room)) = Some alice"
  by (simp add: alice_profile_def sample_room_def map_values_def alice_def)

lemma sample_fst: "fst (register_try sample_host 3 register_alice sample_room) = Normal"
  using alice_key_valid
  by (simp add: register_try_fst [OF register_alice_key _ _ sample_extract] sample_room_found
      register_evict_fst alice_def) (simp add: sample_host_def)

lemma register_completed_new:
  fixes ws :: ws and s :: ChatRoom
  assumes wf: "wf_sessions s"
    and v: "property message (str ''publicKey'') = Some (Some (JStr k))" "k \<noteq> []"
    "isValidPGPPublicKey k" "extractUserProfile H k = Some p"
    and fin: "register_try H ws message s = (Normal, s')"
  shows "\<exists>f tr. new_events s s'
           = new_events s (snd (register_evict H ws (findUserById (p_id p) (map_values (users s))) s))
             @ [Stringified (RegisteredMessage p), Sent ws (RegisteredMessage p), Stringified f]
             @ deliveries H f (live (sessions s)) tr"
proof -
  note c = register_completed [OF wf v fin]
  have "\<exists>evs. io (snd (register_evict H ws (findUserById (p_id p) (map_values (users s))) s)) = io s @ evs"
    by (simp add: register_evict_io)
  then obtain evs
    where evs: "io (snd (register_evict H ws (findUserById (p_id p) (map_values (users s))) s)) = io s @ evs"
    by blast
  show ?thesis
    unfolding new_events_def c(3) evs pass_events_def c(6) by auto
qed

lemma sample_deliveries: "failures (deliveries (sample_host\<lparr>closeThrows := b\<rparr>) f ts tr) = filter (\<lambda>w. w = 2) ts"
  by (induction ts arbitrary: tr) (simp_all add: sample_host_def)

lemma sample_deliveries': "failures (deliveries sample_host f ts tr) = filter (\<lambda>w. w = 2) ts"
  by (induction ts arbitrary: tr) (simp_all add: sample_host_def)

subsection \<open>Frames and errors\<close>

lemma includes_js_iff: "includes_js s sub \<longleftrightarrow> (\<exists>pre post. s = pre @ sub @ post)"
proof (induction s)
  case Nil
  then show ?case by auto
next
  case (Cons c cs)
  show ?case
  proof
    assume "includes_js (c # cs) sub"
    then consider "prefix sub (c # cs)" | "includes_js cs sub" by auto
    then show "\<exists>pre post. c # cs = pre @ sub @ post"
    proof cases
      case 1
      then obtain post where "c # cs = sub @ post" by (auto simp: prefix_def)
      then have "c # cs = [] @ sub @ post" by simp
      then show ?thesis by blast
    next
      case 2
      then obtain pre post where "cs = pre @ sub @ post" using Cons.IH by blast
      then have "c # cs = (c # pre) @ sub @ post" by simp
      then show ?thesis by blast
    qed
  next
    assume "\<exists>pre post. c # cs = pre @ sub @ post"
    then obtain pre post where eq: "c # cs = pre @ sub @ post" by blast
    show "includes_js (c # cs) sub"
    proof (cases pre)
      case Nil
      then have "prefix sub (c # cs)" using eq by (simp add: prefix_def)
      then show ?thesis by simp
    next
      case (Cons a pre')
      then have "cs = pre' @ sub @ post" using eq by simp
      then have "includes_js cs sub" using Cons.IH by blast
      then show ?thesis by simp
    qed
  qed
qed

lemma sendError_new:
  "new_events s (sendError H w m s)
     = [Stringified (ErrorMessage m),
        if sendThrows H (io s @ [Stringified (ErrorMessage m)]) w (ErrorMessage m)
        then SendFailed w (ErrorMessage m) else Sent w (ErrorMessage m)]"
  by (rule new_events_append) (simp add: sendError_io)

lemma sendError_attempts: "attempts (new_events s (sendError H w m s)) = [(w, ErrorMessage m)]"
  by (simp add: sendError_new)

lemma sendError_stringified: "stringified (new_events s (sendError H w m s)) = [ErrorMessage m]"
  by (simp add: sendError_new)

lemma not_nonempty_string:
  "(\<forall>d. v = Some (JStr d) \<longrightarrow> d = []) \<longleftrightarrow> (\<not> truthy v \<or> \<not> typeof_string v)"
  by (cases v rule: typeof_string.cases) auto

lemma chat_frame_data: "property (chat_frame data) (str ''encryptedData'') = Some data"
  by (cases data) (simp_all add: chat_frame_def str_def)

lemma sample_room_alice: "map_get 4 (users sample_room) = Some alice" "map_get 2 (users sample_room) = None"
  by (simp_all add: sample_room_def map_get_def)

lemma pgp_text_valid: "pgp_text \<noteq> [] \<and> isValidPGPMessage pgp_text"
  by (simp add: pgp_text_def isValidPGPMessage_def str_def)

lemma count_targets:
  "distinct xs \<Longrightarrow>
   length (filter (\<lambda>a. fst a = c) (map (\<lambda>c. (c, f)) xs)) = (if c \<in> set xs then 1 else 0)"
proof (induction xs)
  case Nil
  then show ?case by simp
next
  case (Cons x xs)
  have ih: "length (filter (\<lambda>a. fst a = c) (map (\<lambda>c. (c, f)) xs)) = (if c \<in> set xs then 1 else 0)"
    using Cons by simp
  have "length (filter (\<lambda>a. fst a = c) (map (\<lambda>c. (c, f)) (x # xs)))
      = (if x = c then 1 else 0) + length (filter (\<lambda>a. fst a = c) (map (\<lambda>c. (c, f)) xs))"
    by simp
  then show ?case using Cons.prems unfolding ih by auto
qed

lemma property_None: "property m k = None \<longleftrightarrow> m = JNull"
  by (cases m) simp_all

lemma property_Some_Some: "property m k = Some (Some v) \<Longrightarrow> property m k' \<noteq> None"
  by (cases m) simp_all

lemma handleChatMessage_returns:
  "property message k = Some (Some v) \<Longrightarrow> fst (handleChatMessage H ws message s) = Normal"
  using property_Some_Some [of message k v "str ''encryptedData''"]
  by (auto simp: handleChatMessage_def Let_def split: option.splits)

lemma split_nonempty: "split sep s \<noteq> []"
  by (induction s) (auto split: list.splits)

lemma hd_split: "hd (split sep s) = takeWhile (\<lambda>c. c \<noteq> sep) s"
  by (induction s) (auto split: list.splits simp: split_nonempty)

lemma extract_parsed:
  assumes "readKey H k = Some key" "getPrimaryUser key = UserID u" "getFingerprint key = Some fp"
  shows "extractUserProfile H k
     = Some \<lparr>p_id = toUpperCase H fp,
             p_name = (if fst (parse_userIdString u) = [] then str ''User_'' @ randomSuffix H
                       else fst (parse_userIdString u)),
             p_email = (if snd (parse_userIdString u) = []
                        then stripWhiteSpace
                               (toLowerCase H
                                  (if fst (parse_userIdString u) = [] then str ''User_'' @ randomSuffix H
                                   else fst (parse_userIdString u)))
                             @ str ''@example.com''
                        else snd (parse_userIdString u))\<rparr>"
  using assms
  by (cases "parse_userIdString u") (simp add: extractUserProfile_def extract_try_def Let_def)

lemma register_reply_first:
  fixes ws :: ws and s :: ChatRoom
  assumes wf: "wf_sessions s"
    and v: "property message (str ''publicKey'') = Some (Some (JStr k))" "k \<noteq> []"
      "isValidPGPPublicKey k" "extractUserProfile H k = Some p"
    and ev: "fst (register_evict H ws (findUserById (p_id p) (map_values (users s))) s) = Normal"
  shows "hd (attempts (new_events s (handleRegister H ws message s))) = (ws, RegisteredMessage p)"
proof -
  define s1 where "s1 = snd (register_evict H ws (findUserById (p_id p) (map_values (users s))) s)"
  define s2 where "s2 = JSON_stringify (RegisteredMessage p)
      (s1\<lparr>users := map_set ws (new_userInfo ws k p) (users s1)\<rparr>)"
  note out = register_outcome [OF v, of ws s, folded s1_def, folded s2_def]
  have pre: "\<exists>evs. io s1 = io s @ evs \<and> attempts evs = []"
    by (simp add: s1_def register_evict_io split: option.splits)
  then obtain evs where evs: "io s1 = io s @ evs" "attempts evs = []" by blast
  have io2: "io s2 = io s @ evs @ [Stringified (RegisteredMessage p)]"
    by (simp add: s2_def evs)
  have wf2: "wf_sessions (emit (Sent ws (RegisteredMessage p)) s2)"
    using wf by (simp add: wf_sessions_def s2_def s1_def register_evict_sessions)
  show ?thesis
  proof (cases "sendThrows H (io s2) ws (RegisteredMessage p)")
    case True
    then have "handleRegister H ws message s
        = sendError H ws (str ''Registration failed'') (emit (SendFailed ws (RegisteredMessage p)) s2)"
      using ev by (simp add: handleRegister_def out)
    then have "\<exists>rest. io (handleRegister H ws message s)
        = io s @ (evs @ Stringified (RegisteredMessage p) # SendFailed ws (RegisteredMessage p) # rest)"
      by (simp add: sendError_io io2)
    then obtain rest where "new_events s (handleRegister H ws message s)
        = evs @ Stringified (RegisteredMessage p) # SendFailed ws (RegisteredMessage p) # rest"
      using new_events_append by blast
    then show ?thesis by (simp add: attempts_append evs)
  next
    case False
    then have "handleRegister H ws message s
        = broadcastUserList H (emit (Sent ws (RegisteredMessage p)) s2)"
      using ev by (simp add: handleRegister_def out)
    then have "\<exists>rest. io (handleRegister H ws message s)
        = io s @ (evs @ Stringified (RegisteredMessage p) # Sent ws (RegisteredMessage p) # rest)"
      by (simp add: broadcastUserList_io [OF wf2] io2)
    then obtain rest where "new_events s (handleRegister H ws message s)
        = evs @ Stringified (RegisteredMessage p) # Sent ws (RegisteredMessage p) # rest"
      using new_events_append by blast
    then show ?thesis by (simp add: attempts_append evs)
  qed
qed

subsection \<open>The expression for \<open>Name <email>\<close>\<close>

lemma LT_not_space: "\<not> isWhiteSpace LT"
  by (simp add: isWhiteSpace_def isLineTerminator_def LT_def)

lemma userid_tail_Some:
  assumes "userid_tail r = Some g2"
  shows "\<exists>w. r = w @ [LT] @ g2 @ [GT] \<and> list_all isWhiteSpace w \<and> g2 \<noteq> [] \<and> GT \<notin> set g2"
proof -
  obtain c r2 where d: "dropWhile isWhiteSpace r = c # r2"
    using assms by (cases "dropWhile isWhiteSpace r") (simp_all add: userid_tail_def)
  have c: "c = LT" and r2: "r2 \<noteq> []" "last r2 = GT" "butlast r2 \<noteq> []" "GT \<notin> set (butlast r2)"
    and g2: "g2 = butlast r2"
    using assms d by (auto simp: userid_tail_def split: if_splits)
  have "r = takeWhile isWhiteSpace r @ dropWhile isWhiteSpace r" by simp
  also have "dropWhile isWhiteSpace r = [LT] @ butlast r2 @ [last r2]"
    using d c r2(1) by simp
  finally have "r = takeWhile isWhiteSpace r @ [LT] @ g2 @ [GT]"
    using g2 r2(2) by simp
  moreover have "list_all isWhiteSpace (takeWhile isWhiteSpace r)"
    by (simp add: list_all_iff) (meson set_takeWhileD)
  ultimately show ?thesis using g2 r2 by blast
qed

lemma userid_tail_complete:
  assumes "list_all isWhiteSpace w" "e \<noteq> []" "GT \<notin> set e"
  shows "userid_tail (w @ [LT] @ e @ [GT]) = Some e"
proof -
  have "dropWhile isWhiteSpace (w @ [LT] @ e @ [GT]) = LT # e @ [GT]"
    using assms(1) LT_not_space by (induction w) simp_all
  then show ?thesis using assms(2,3) by (simp add: userid_tail_def butlast_append)
qed

text \<open>A match of \<open>/^(.+?)\s*<([^>]+)>$/\<close> splits the string as the expression reads,
  and every string that splits so is matched.\<close>

lemma userid_from_Some:
  "userid_from a s = Some (g1, g2) \<Longrightarrow>
   \<exists>b w. g1 = a @ b \<and> b \<noteq> [] \<and> s = b @ w @ [LT] @ g2 @ [GT]
      \<and> list_all (\<lambda>c. \<not> isLineTerminator c) b \<and> list_all isWhiteSpace w \<and> g2 \<noteq> [] \<and> GT \<notin> set g2"
proof (induction s arbitrary: a)
  case Nil
  then show ?case by simp
next
  case (Cons c cs)
  have nl: "\<not> isLineTerminator c" using Cons.prems by (auto split: if_splits)
  show ?case
  proof (cases "userid_tail cs")
    case (Some e)
    then have g: "g1 = a @ [c]" "g2 = e" using Cons.prems nl by simp_all
    obtain w where "cs = w @ [LT] @ e @ [GT]" "list_all isWhiteSpace w" "e \<noteq> []" "GT \<notin> set e"
      using userid_tail_Some [OF Some] by blast
    then have "g1 = a @ [c] \<and> [c] \<noteq> [] \<and> c # cs = [c] @ w @ [LT] @ g2 @ [GT]
      \<and> list_all (\<lambda>c. \<not> isLineTerminator c) [c] \<and> list_all isWhiteSpace w \<and> g2 \<noteq> [] \<and> GT \<notin> set g2"
      using g nl by simp
    then show ?thesis by blast
  next
    case None
    then have "userid_from (a @ [c]) cs = Some (g1, g2)" using Cons.prems nl by simp
    then obtain b w where b: "g1 = (a @ [c]) @ b" "b \<noteq> []" "cs = b @ w @ [LT] @ g2 @ [GT]"
        "list_all (\<lambda>c. \<not> isLineTerminator c) b" "list_all isWhiteSpace w" "g2 \<noteq> []" "GT \<notin> set g2"
      using Cons.IH by blast
    then have "g1 = a @ (c # b) \<and> c # b \<noteq> [] \<and> c # cs = (c # b) @ w @ [LT] @ g2 @ [GT]
      \<and> list_all (\<lambda>c. \<not> isLineTerminator c) (c # b) \<and> list_all isWhiteSpace w \<and> g2 \<noteq> [] \<and> GT \<notin> set g2"
      using nl by simp
    then show ?thesis by blast
  qed
qed

lemma match_userid_sound:
  "match_userid s = Some (g1, g2) \<Longrightarrow>
   \<exists>w. s = g1 @ w @ [LT] @ g2 @ [GT] \<and> g1 \<noteq> []
      \<and> list_all (\<lambda>c. \<not> isLineTerminator c) g1 \<and> list_all isWhiteSpace w \<and> g2 \<noteq> [] \<and> GT \<notin> set g2"
  using userid_from_Some [of "[]" s g1 g2] by (auto simp: match_userid_def)

lemma userid_from_complete:
  "b \<noteq> [] \<Longrightarrow> list_all (\<lambda>c. \<not> isLineTerminator c) b \<Longrightarrow> list_all isWhiteSpace w \<Longrightarrow> e \<noteq> [] \<Longrightarrow>
   GT \<notin> set e \<Longrightarrow> userid_from a (b @ w @ [LT] @ e @ [GT]) \<noteq> None"
proof (induction b arbitrary: a)
  case Nil
  then show ?case by simp
next
  case (Cons c b)
  have nl: "\<not> isLineTerminator c" using Cons.prems(2) by simp
  show ?case
  proof (cases "userid_tail (b @ w @ [LT] @ e @ [GT])")
    case (Some g)
    then show ?thesis using nl by simp
  next
    case None
    have "b \<noteq> []"
    proof
      assume "b = []"
      then have "userid_tail (b @ w @ [LT] @ e @ [GT]) = Some e"
        using userid_tail_complete [OF Cons.prems(3,4,5)] by simp
      then show False using None by simp
    qed
    then have "userid_from (a @ [c]) (b @ w @ [LT] @ e @ [GT]) \<noteq> None"
      using Cons.IH Cons.prems by simp
    then show ?thesis using nl None by simp
  qed
qed

lemma match_userid_complete:
  "b \<noteq> [] \<Longrightarrow> list_all (\<lambda>c. \<not> isLineTerminator c) b \<Longrightarrow> list_all isWhiteSpace w \<Longrightarrow> e \<noteq> [] \<Longrightarrow>
   GT \<notin> set e \<Longrightarrow> match_userid (b @ w @ [LT] @ e @ [GT]) \<noteq> None"
  unfolding match_userid_def by (rule userid_from_complete)

lemma userid_evals:
  "match_userid (str ''Alice <alice@x.com>'') = Some (str ''Alice'', str ''alice@x.com'')"
  "match_userid (str '' bob@x.org '') = None" "includes_js (str '' bob@x.org '') [AT]"
  "match_userid (str '' Carol '') = None" "\<not> includes_js (str '' Carol '') [AT]"
  "match_userid (str '' <a@b.c>'') = Some (str '' '', str ''a@b.c'')"
  by (simp_all add: match_userid_def userid_tail_def str_def isLineTerminator_def isWhiteSpace_def
      LT_def GT_def AT_def)

lemma trim_evals:
  "trim (str ''Alice'') = str ''Alice''" "trim (str ''alice@x.com'') = str ''alice@x.com''"
  "trim (str '' bob@x.org '') = str ''bob@x.org''" "trim (str '' Carol '') = str ''Carol''"
  "trim (str '' '') = []" "trim (str ''a@b.c'') = str ''a@b.c''"
  by (simp_all add: trim_def str_def isWhiteSpace_def isLineTerminator_def)

lemma host_with_userid_simps:
  "readKey (host_with_userid u) k = Some \<lparr>getPrimaryUser = UserID u, getFingerprint = Some (str ''ab12cd'')\<rparr>"
  "toUpperCase (host_with_userid u) (str ''ab12cd'') = str ''AB12CD''"
  "randomSuffix (host_with_userid u) = str ''k3j9x2ab''"
  "toLowerCase (host_with_userid u) = map ascii_lower"
  by (simp_all add: host_with_userid_def sample_host_def str_def ascii_upper_def)

subsection \<open>Every room that can arise satisfies the invariants\<close>

lemma new_room_inv: "room_inv new_room"
  by (simp add: room_inv_def wf_sessions_def wf_users_def unique_ids_def new_room_def map_values_def)

lemma handleSession_inv: "room_inv s \<Longrightarrow> room_inv (handleSession ws s)"
  by (simp add: room_inv_def wf_sessions_def handleSession_def live_set_add)

lemma handleGetUsers_inv: "room_inv (snd (handleGetUsers H ws s)) = room_inv s"
  by (rule room_inv_cong) (simp_all add: handleGetUsers_def Let_def)

lemma handleChatMessage_inv: "room_inv s \<Longrightarrow> room_inv (snd (handleChatMessage H ws message s))"
  by (auto simp: handleChatMessage_def Let_def broadcast_inv split: option.splits)

lemma handleMessage_inv: "room_inv s \<Longrightarrow> room_inv (snd (handleMessage H ws message s))"
  by (auto simp: handleMessage_def handleRegister_inv handleGetUsers_inv handleChatMessage_inv
      split: option.splits)

lemma on_message_inv: "room_inv s \<Longrightarrow> room_inv (on_message H ws parsed s)"
proof (cases parsed)
  case None
  then show "room_inv s \<Longrightarrow> ?thesis" by (simp add: on_message_def)
next
  case (Some message)
  assume "room_inv s"
  then have "room_inv (snd (handleMessage H ws message s))" by (rule handleMessage_inv)
  then show ?thesis
    using Some by (cases "handleMessage H ws message s") (auto simp: on_message_def split: completion.splits)
qed

lemma handleDisconnect_inv: "room_inv s \<Longrightarrow> room_inv (handleDisconnect H ws s)"
proof -
  assume inv: "room_inv s"
  then have "room_inv (s\<lparr>sessions := set_delete ws (sessions s), users := map_delete ws (users s)\<rparr>)"
    using set_delete_wf [where s = s and w = ws and m = "map_delete ws (users s)"]
    by (simp add: room_inv_def wf_users_map_delete unique_ids_map_delete)
  then show ?thesis by (simp add: handleDisconnect_def broadcastUserList_def broadcast_inv)
qed

lemma reachable_room_inv: "reachable s \<Longrightarrow> room_inv s"
  by (induction rule: reachable.induct)
     (simp_all add: new_room_inv handleSession_inv on_message_inv handleDisconnect_inv
        on_close_def on_error_def)

lemma deliveries_failures_throw:
  "c \<in> set (failures (deliveries H f ts tr)) \<Longrightarrow> \<exists>tr'. sendThrows H tr' c f"
  by (induction ts arbitrary: tr) (auto split: if_splits)

subsection \<open>The fallback, step by step\<close>

lemma comment_match_groups:
  "comment_match line = Some m \<Longrightarrow>
   \<exists>g1 g2. match_comment line = Some (g1, g2) \<and> call_trim (element m 1) = Some (trim g1)
          \<and> call_trim (element m 2) = Some (trim g2)"
  by (auto simp: comment_match_def element_def call_trim_def split: option.splits)

lemma comment_match_None: "comment_match line = None \<longleftrightarrow> match_comment line = None"
  by (simp add: comment_match_def split: option.splits)

lemma scan_lines_raw_total: "scan_lines_raw lines acc = Some (scan_lines lines acc)"
proof (induction lines arbitrary: acc)
  case Nil
  show ?case by (cases acc) simp
next
  case (Cons line lines)
  obtain name email where acc: "acc = (name, email)" by (cases acc)
  show ?case
  proof (cases "comment_match line")
    case None
    then have "match_comment line = None" by (simp add: comment_match_None)
    then show ?thesis using None Cons.IH by (simp add: acc)
  next
    case (Some m)
    then obtain g1 g2 where g: "match_comment line = Some (g1, g2)"
        "call_trim (element m 1) = Some (trim g1)" "call_trim (element m 2) = Some (trim g2)"
      using comment_match_groups by blast
    show ?thesis using Some g Cons.IH by (simp add: acc)
  qed
qed

lemma scan_lines_last:
  "scan_lines lines acc =
     (case List.map_filter match_comment
             (filter (\<lambda>line. includes_js line (str ''Comment:'') \<or> includes_js line (str ''Name:'')) lines) of
        [] \<Rightarrow> acc
      | g # gs \<Rightarrow> (trim (fst (last (g # gs))), trim (snd (last (g # gs)))))"
proof (induction lines arbitrary: acc)
  case Nil
  show ?case by (cases acc) (simp add: List.map_filter_simps)
next
  case (Cons line lines)
  obtain name email where acc: "acc = (name, email)" by (cases acc)
  show ?case
    unfolding acc
    by (cases "match_comment line")
       (auto simp: Cons.IH List.map_filter_simps split: list.splits)
qed

lemma fallback_raw_total:
  "fallbackExtractUserProfile_raw H k = Some (fallbackExtractUserProfile H k)"
  by (simp add: fallbackExtractUserProfile_raw_def fallbackExtractUserProfile_def Let_def
      scan_lines_raw_total split: prod.splits)

lemma bob_key_lines: "split NL bob_key = [str ''Version: 1'', str ''Comment: Bob <bob@x.org>'']"
  by (simp add: bob_key_def str_def NL_def)

lemma bob_comment:
  "match_comment (str ''Comment: Bob <bob@x.org>'') = Some (str '' Bob '', str ''bob@x.org'')"
  by (simp add: comment_here_def str_def isWordChar_def isWhiteSpace_def isLineTerminator_def LT_def GT_def Let_def)

lemma bob_key_comment_lines: "comment_lines bob_key = [(str '' Bob '', str ''bob@x.org'')]"
proof -
  have a: "\<not> includes_js (str ''Version: 1'') (str ''Comment:'')"
          "\<not> includes_js (str ''Version: 1'') (str ''Name:'')"
          "includes_js (str ''Comment: Bob <bob@x.org>'') (str ''Comment:'')"
    by (simp_all add: str_def)
  show ?thesis
    unfolding comment_lines_def bob_key_lines using a
    by (simp add: List.map_filter_simps bob_comment)
qed

lemma bob_trim: "trim (str '' Bob '') = str ''Bob''" "trim (str ''bob@x.org'') = str ''bob@x.org''"
  by (simp_all add: trim_def str_def isWhiteSpace_def isLineTerminator_def)

lemma bob_key_rejected: "readKey sample_host bob_key = None"
  by (simp add: sample_host_def bob_key_def alice_key_def str_def)

subsection \<open>A channel outside the session set\<close>

lemma roster_refusing_deliveries:
  "failures (deliveries (roster_refusing c) (UserListMessage r) ts tr) = filter (\<lambda>w. w = c) ts"
  by (induction ts arbitrary: tr) (simp_all add: roster_refusing_def)

lemma roster_refusing_extracts:
  "extractUserProfile (roster_refusing c) alice_key = Some alice_profile"
  "extractUserProfile quiet_host alice_key = Some alice_profile"
  unfolding roster_refusing_def quiet_host_def by (rule host_extracts)+

lemma bound_to_evicted:
  assumes wf: "wf_users m" and un: "unique_ids m"
    and found: "findUserById i (map_values m) = Some e"
  shows "bound_to i (map_delete (u_webSocket e) m) = []"
proof (rule bound_to_none)
  fix entry assume mem: "entry \<in> set (map_delete (u_webSocket e) m)"
  then have in_m: "entry \<in> set m" and other: "fst entry \<noteq> u_webSocket e"
    by (auto simp: map_delete_def)
  from found have "e \<in> set (map_values m)" "u_id e = i" by (auto dest: findUserById_Some)
  then obtain k where ke: "(k, e) \<in> set m" by (auto simp: map_values_def)
  then have k: "k = u_webSocket e" using wf by (auto simp: wf_users_def list_all_iff)
  show "u_id (snd entry) \<noteq> i"
  proof
    assume "u_id (snd entry) = i"
    then have "u_id (snd entry) = u_id (snd (k, e))" using \<open>u_id e = i\<close> by simp
    with un in_m ke have "entry = (k, e)" by (rule unique_entry)
    then show False using other k by simp
  qed
qed

lemma register_unbound:
  fixes ws :: ws and s :: ChatRoom
  assumes wf: "wf_sessions s"
    and v: "property message (str ''publicKey'') = Some (Some (JStr k))" "k \<noteq> []"
      "isValidPGPPublicKey k" "extractUserProfile H k = Some p"
    and none: "findUserById (p_id p) (map_values (users s)) = None"
    and reply: "\<And>tr. \<not> sendThrows H tr ws (RegisteredMessage p)"
  shows "\<exists>tr. users (handleRegister H ws message s)
             = filter (\<lambda>entry. fst entry \<notin> set (failures (deliveries H
                   (UserListMessage (userList (map_set ws (new_userInfo ws k p) (users s))))
                   (live (sessions s)) tr)))
                 (map_set ws (new_userInfo ws k p) (users s))
           \<and> live (sessions (handleRegister H ws message s))
             = filter (\<lambda>c. c \<notin> set (failures (deliveries H
                   (UserListMessage (userList (map_set ws (new_userInfo ws k p) (users s))))
                   (live (sessions s)) tr)))
                 (live (sessions s))"
proof -
  have "fst (register_try H ws message s) = Normal"
    by (simp add: register_try_fst [OF v] none register_evict_fst reply)
  then have run: "register_try H ws message s = (Normal, handleRegister H ws message s)"
    by (rule register_try_Normal)
  have s1: "snd (register_evict H ws None s) = s" by (simp add: register_evict_def)
  note c = register_completed [OF wf v run, unfolded none s1]
  show ?thesis
    unfolding c(4) c(5) pass_events_def failures.simps c(6) by blast
qed

lemma on_message_register:
  "on_message H ws (Some register_alice) s = handleRegister H ws register_alice s"
  by (simp add: on_message_def handleMessage_def register_alice_def str_def)

lemma stale_room_reachable: "reachable stale_room"
  unfolding stale_room_def by (intro reachable.intros)

lemma stale_room_state:
  "users stale_room = [(3, new_userInfo 3 alice_key alice_profile)]"
  "live (sessions stale_room) = [2]"
proof -
  define a where "a = handleSession 2 (handleSession 3 new_room)"
  define b where "b = handleRegister (roster_refusing 3) 3 register_alice a"
  have k: "alice_key \<noteq> []" "isValidPGPPublicKey alice_key" using alice_key_valid by simp_all
  have st: "stale_room = handleRegister quiet_host 3 register_alice b"
    by (simp add: stale_room_def on_message_register a_def b_def)
  have a: "users a = []" "live (sessions a) = [3, 2]"
    by (simp_all add: a_def handleSession_def new_room_def set_add_def)
  have inv_a: "room_inv a"
    unfolding a_def by (intro handleSession_inv new_room_inv)
  then have wf_a: "wf_sessions a" by (simp add: room_inv_def)
  have "room_inv b" unfolding b_def using inv_a by (rule handleRegister_inv)
  then have wf_b: "wf_sessions b" by (simp add: room_inv_def)
  have none_a: "findUserById (p_id alice_profile) (map_values (users a)) = None"
    by (simp add: a map_values_def)
  have reply_a: "\<And>tr. \<not> sendThrows (roster_refusing 3) tr 3 (RegisteredMessage alice_profile)"
    by (simp add: roster_refusing_def)
  obtain tr where b: "users b
             = filter (\<lambda>entry. fst entry \<notin> set (failures (deliveries (roster_refusing 3)
                   (UserListMessage (userList (map_set 3 (new_userInfo 3 alice_key alice_profile) (users a))))
                   (live (sessions a)) tr)))
                 (map_set 3 (new_userInfo 3 alice_key alice_profile) (users a))"
        "live (sessions b)
             = filter (\<lambda>c. c \<notin> set (failures (deliveries (roster_refusing 3)
                   (UserListMessage (userList (map_set 3 (new_userInfo 3 alice_key alice_profile) (users a))))
                   (live (sessions a)) tr)))
                 (live (sessions a))"
    using register_unbound [OF wf_a register_alice_key k roster_refusing_extracts(1) none_a reply_a]
    unfolding b_def by blast
  have b': "users b = []" "live (sessions b) = [2]"
    unfolding b roster_refusing_deliveries a by simp_all
  have none_b: "findUserById (p_id alice_profile) (map_values (users b)) = None"
    by (simp add: b' map_values_def)
  have quiet: "\<And>tr c f. \<not> sendThrows quiet_host tr c f"
    by (simp add: quiet_host_def)
  obtain tr' where c: "users stale_room
             = filter (\<lambda>entry. fst entry \<notin> set (failures (deliveries quiet_host
                   (UserListMessage (userList (map_set 3 (new_userInfo 3 alice_key alice_profile) (users b))))
                   (live (sessions b)) tr')))
                 (map_set 3 (new_userInfo 3 alice_key alice_profile) (users b))"
        "live (sessions stale_room)
             = filter (\<lambda>c. c \<notin> set (failures (deliveries quiet_host
                   (UserListMessage (userList (map_set 3 (new_userInfo 3 alice_key alice_profile) (users b))))
                   (live (sessions b)) tr')))
                 (live (sessions b))"
    using register_unbound [OF wf_b register_alice_key k roster_refusing_extracts(2) none_b quiet]
    unfolding st by blast
  have nofail: "failures (deliveries quiet_host f ts t) = []" for f ts t
    by (simp add: deliveries_never [OF quiet])
       (induction ts, simp_all)
  show "users stale_room = [(3, new_userInfo 3 alice_key alice_profile)]"
    unfolding c nofail b' by simp
  show "live (sessions stale_room) = [2]"
    unfolding c nofail b' by simp
qed

section \<open>The claims\<close>

text \<open>
  Claim C1, as the code has it. For a message frame from a channel with a directory
  entry, whose \<open>encryptedData\<close> is a non-empty string with both markers, the room
  broadcasts the frame \<open>encryptedMessage\<close> with the sender's bound id, the inbound string
  as it came and \<open>Date.now()\<close> of the host as timestamp, whatever else the inbound frame
  carries. One send is attempted on each channel of the session set, in its order, and on
  no other: the sender is a target exactly when it is in the session set, which a channel
  with a directory entry need not be. A send fails only where the host's \<open>send\<close>
  throws; where none throws, every one of them is a delivery.
\<close>

theorem relay_reaches_every_session_once:
  assumes wf: "wf_sessions s"
    and sender: "map_get ws (users s) = Some sender"
    and data: "property message (str ''encryptedData'') = Some (Some (JStr d))" "d \<noteq> []"
    and markers: "includes_js d (str ''-----BEGIN PGP MESSAGE-----'')"
      "includes_js d (str ''-----END PGP MESSAGE-----'')"
  shows "handleChatMessage H ws message s
           = (Normal, broadcast H (EncryptedMessage (u_id sender) d (dateNow H)) s)
       \<and> attempts (new_events s (snd (handleChatMessage H ws message s)))
           = map (\<lambda>c. (c, EncryptedMessage (u_id sender) d (dateNow H))) (live (sessions s))
       \<and> (\<forall>c. length (filter (\<lambda>a. fst a = c)
                   (attempts (new_events s (snd (handleChatMessage H ws message s)))))
              = (if c \<in> set (live (sessions s)) then 1 else 0))
       \<and> ((ws, EncryptedMessage (u_id sender) d (dateNow H))
              \<in> set (attempts (new_events s (snd (handleChatMessage H ws message s))))
            \<longleftrightarrow> ws \<in> set (live (sessions s)))
       \<and> (\<forall>c. c \<in> set (failures (new_events s (snd (handleChatMessage H ws message s)))) \<longrightarrow>
              (\<exists>tr. sendThrows H tr c (EncryptedMessage (u_id sender) d (dateNow H))))
       \<and> ((\<forall>tr c. \<not> sendThrows H tr c (EncryptedMessage (u_id sender) d (dateNow H))) \<longrightarrow>
            new_events s (snd (handleChatMessage H ws message s))
              = Stringified (EncryptedMessage (u_id sender) d (dateNow H))
                # map (\<lambda>c. Sent c (EncryptedMessage (u_id sender) d (dateNow H))) (live (sessions s)))"
proof -
  let ?f = "EncryptedMessage (u_id sender) d (dateNow H)"
  have h: "handleChatMessage H ws message s = (Normal, broadcast H ?f s)"
    using sender data markers by (simp add: handleChatMessage_def isValidPGPMessage_def)
  have new: "new_events s (broadcast H ?f s) = pass_events H ?f s"
    by (rule new_events_append) (rule broadcast_io)
  have att: "attempts (new_events s (snd (handleChatMessage H ws message s)))
           = map (\<lambda>c. (c, ?f)) (live (sessions s))"
    by (simp add: h new pass_events_attempts)
  have once: "\<forall>c. length (filter (\<lambda>a. fst a = c)
                   (attempts (new_events s (snd (handleChatMessage H ws message s)))))
              = (if c \<in> set (live (sessions s)) then 1 else 0)"
    unfolding att using wf by (simp only: count_targets wf_sessions_def) simp
  have self: "(ws, ?f) \<in> set (attempts (new_events s (snd (handleChatMessage H ws message s))))
            \<longleftrightarrow> ws \<in> set (live (sessions s))"
    unfolding att by auto
  have fails: "\<forall>c. c \<in> set (failures (new_events s (snd (handleChatMessage H ws message s)))) \<longrightarrow>
              (\<exists>tr. sendThrows H tr c ?f)"
    by (simp add: h new pass_events_def) (blast dest: deliveries_failures_throw)
  have sent: "(\<forall>tr c. \<not> sendThrows H tr c ?f) \<longrightarrow>
            new_events s (snd (handleChatMessage H ws message s))
              = Stringified ?f # map (\<lambda>c. Sent c ?f) (live (sessions s))"
    by (simp add: h new pass_events_def deliveries_never)
  show ?thesis by (intro conjI h att once self fails sent)
qed

text \<open>Alice's frame, with a \<open>timestamp\<close> field of her own, on a host where no send
  throws.\<close>

theorem relay_reaches_every_session_once_witness:
  "wf_sessions sample_room
   \<and> map_get 4 (users sample_room) = Some alice
   \<and> handleChatMessage (sample_host\<lparr>sendThrows := \<lambda>tr w f. False\<rparr>) 4 (chat_frame (Some (JStr pgp_text))) sample_room
       = (Normal, broadcast (sample_host\<lparr>sendThrows := \<lambda>tr w f. False\<rparr>)
                    (EncryptedMessage (str ''AB12CD'') pgp_text 1700000000000) sample_room)
   \<and> new_events sample_room
        (snd (handleChatMessage (sample_host\<lparr>sendThrows := \<lambda>tr w f. False\<rparr>) 4
                (chat_frame (Some (JStr pgp_text))) sample_room))
       = [Stringified (EncryptedMessage (str ''AB12CD'') pgp_text 1700000000000),
          Sent 4 (EncryptedMessage (str ''AB12CD'') pgp_text 1700000000000),
          Sent 2 (EncryptedMessage (str ''AB12CD'') pgp_text 1700000000000),
          Sent 3 (EncryptedMessage (str ''AB12CD'') pgp_text 1700000000000)]"
proof -
  let ?H = "sample_host\<lparr>sendThrows := \<lambda>tr w f. False\<rparr>"
  have wf: "wf_sessions sample_room" using sample_room_inv by (simp add: room_inv_def)
  have m: "pgp_text \<noteq> []" "includes_js pgp_text (str ''-----BEGIN PGP MESSAGE-----'')"
      "includes_js pgp_text (str ''-----END PGP MESSAGE-----'')"
    using pgp_text_valid by (simp_all add: isValidPGPMessage_def)
  note claim = relay_reaches_every_session_once
      [OF wf sample_room_alice(1) chat_frame_data m, of ?H]
  have id: "u_id alice = str ''AB12CD''" "dateNow ?H = 1700000000000"
    by (simp_all add: alice_def sample_host_def)
  have l: "live (sessions sample_room) = [4, 2, 3]" by (simp add: sample_room_def)
  have 1: "handleChatMessage ?H 4 (chat_frame (Some (JStr pgp_text))) sample_room
       = (Normal, broadcast ?H (EncryptedMessage (str ''AB12CD'') pgp_text 1700000000000) sample_room)"
    using claim unfolding id by blast
  have never: "\<forall>tr c. \<not> sendThrows ?H tr c (EncryptedMessage (str ''AB12CD'') pgp_text 1700000000000)"
    by simp
  have 2: "new_events sample_room (snd (handleChatMessage ?H 4 (chat_frame (Some (JStr pgp_text))) sample_room))
       = Stringified (EncryptedMessage (str ''AB12CD'') pgp_text 1700000000000)
         # map (\<lambda>c. Sent c (EncryptedMessage (str ''AB12CD'') pgp_text 1700000000000)) (live (sessions sample_room))"
    using claim never unfolding id by blast
  show ?thesis
    using wf sample_room_alice(1) 1 2 unfolding l by simp
qed

text \<open>
  Claim C1 as stated fails in a room that can arise: channel 3 was dropped from the
  session set by a failed delivery and registered again, which binds it in the directory
  and does not put it back in the set. Its message is relayed to channel 2 alone, not to
  the sender.
\<close>

theorem relay_skips_unlisted_sender_counterexample:
  "reachable stale_room
   \<and> map_get 3 (users stale_room) = Some (new_userInfo 3 alice_key alice_profile)
   \<and> property (chat_frame (Some (JStr pgp_text))) (str ''encryptedData'') = Some (Some (JStr pgp_text))
   \<and> pgp_text \<noteq> [] \<and> isValidPGPMessage pgp_text
   \<and> live (sessions stale_room) = [2]
   \<and> attempts (new_events stale_room
        (snd (handleChatMessage quiet_host 3 (chat_frame (Some (JStr pgp_text))) stale_room)))
       = [(2, EncryptedMessage (str ''AB12CD'') pgp_text 1700000000000)]"
proof -
  let ?f = "EncryptedMessage (str ''AB12CD'') pgp_text 1700000000000"
  have bound: "map_get 3 (users stale_room) = Some (new_userInfo 3 alice_key alice_profile)"
    by (simp add: stale_room_state map_get_def)
  have h: "handleChatMessage quiet_host 3 (chat_frame (Some (JStr pgp_text))) stale_room
       = (Normal, broadcast quiet_host ?f stale_room)"
    using pgp_text_valid
    by (simp add: handleChatMessage_def bound chat_frame_data)
       (simp add: alice_profile_def quiet_host_def sample_host_def)
  have new: "new_events stale_room (broadcast quiet_host ?f stale_room) = pass_events quiet_host ?f stale_room"
    by (rule new_events_append) (rule broadcast_io)
  have att: "attempts (new_events stale_room
        (snd (handleChatMessage quiet_host 3 (chat_frame (Some (JStr pgp_text))) stale_room)))
       = [(2, ?f)]"
    by (simp add: h new pass_events_attempts stale_room_state)
  show ?thesis
    using stale_room_reachable bound chat_frame_data [of "Some (JStr pgp_text)"] pgp_text_valid
      stale_room_state(2) att
    by simp
qed

text \<open>
  Claim C2, as the code has it. In a room that satisfies the invariants, as every room
  that can arise does (\<open>reachable_room_inv\<close>), every registration that completes (the
  \<open>try\<close> returns) leaves at most one channel bound to any identity id. If the extracted
  id is that of an entry bound to another channel, the eviction comes first: it deletes
  that entry, after which no channel is bound to the id, and closes the other channel.
  The requester is bound after it, in the directory the eviction left: when the
  \<open>close\<close> throws, the handler stops with the entry deleted and the requester not
  bound; when the registration completes, the first events are the close, then the
  serialised reply and its send, and the directory is the one the eviction left with the
  requester's entry set, less the channels the roster rebroadcast failed to reach. The
  channels bound to the id afterwards are the requesting channel alone, or none when the
  rebroadcast fails to deliver to the requesting channel, which removes it.
\<close>

theorem registration_keeps_one_channel_per_id:
  fixes ws :: ws and s :: ChatRoom
  assumes inv: "room_inv s"
    and frame: "property message (str ''publicKey'') = Some (Some (JStr k))" "k \<noteq> []"
      "isValidPGPPublicKey k"
    and profile: "extractUserProfile H k = Some p"
  shows "(register_try H ws message s = (Normal, s') \<longrightarrow>
            handleRegister H ws message s = s'
          \<and> unique_ids (users s') \<and> wf_users (users s')
          \<and> bound_to (p_id p) (users s')
              = (if ws \<in> set (failures (new_events s s')) then [] else [ws]))
       \<and> (\<forall>e. findUserById (p_id p) (map_values (users s)) = Some e \<and> u_webSocket e \<noteq> ws \<longrightarrow>
              users (snd (register_evict H ws (Some e) s)) = map_delete (u_webSocket e) (users s)
            \<and> bound_to (p_id p) (users (snd (register_evict H ws (Some e) s))) = []
            \<and> (closeThrows H (io s) (u_webSocket e) \<longrightarrow>
                 fst (register_try H ws message s) = Thrown
               \<and> users (handleRegister H ws message s) = map_delete (u_webSocket e) (users s)
               \<and> bound_to (p_id p) (users (handleRegister H ws message s)) = [])
            \<and> (register_try H ws message s = (Normal, s') \<longrightarrow>
                 map_get (u_webSocket e) (users s') = None
               \<and> take 3 (new_events s s')
                    = [Closed (u_webSocket e), Stringified (RegisteredMessage p),
                       Sent ws (RegisteredMessage p)]
               \<and> users s'
                    = filter (\<lambda>entry. fst entry \<notin> set (failures (new_events s s')))
                        (map_set ws (new_userInfo ws k p)
                           (users (snd (register_evict H ws (Some e) s))))))"
proof -
  define ex where "ex = findUserById (p_id p) (map_values (users s))"
  define s1 where "s1 = snd (register_evict H ws ex s)"
  define m2 where "m2 = map_set ws (new_userInfo ws k p) (users s1)"
  define s3 where "s3 = emit (Sent ws (RegisteredMessage p))
                  (JSON_stringify (RegisteredMessage p) (s1\<lparr>users := m2\<rparr>))"
  define F where "F = failures (pass_events H (UserListMessage (userList m2)) s3)"
  have wf: "wf_sessions s" and wfu: "wf_users (users s)" and un: "unique_ids (users s)"
    using inv by (simp_all add: room_inv_def)
  have pre: "\<exists>evs. io s1 = io s @ evs \<and> failures evs = []"
    by (simp add: s1_def register_evict_io split: option.splits)
  then obtain evs where evs: "io s1 = io s @ evs" "failures evs = []" by blast
  have completed: "handleRegister H ws message s = s'
          \<and> unique_ids (users s') \<and> wf_users (users s')
          \<and> bound_to (p_id p) (users s')
              = (if ws \<in> set (failures (new_events s s')) then [] else [ws])
          \<and> new_events s s' = evs @ [Stringified (RegisteredMessage p), Sent ws (RegisteredMessage p)]
                 @ pass_events H (UserListMessage (userList m2)) s3
          \<and> users s' = filter (\<lambda>entry. fst entry \<notin> set (failures (new_events s s'))) m2"
    if fin: "register_try H ws message s = (Normal, s')"
  proof -
    note c = register_completed [OF wf frame profile fin, folded ex_def, folded s1_def,
        folded m2_def, folded s3_def, folded F_def]
    have h: "handleRegister H ws message s = s'"
      using fin by (simp add: handleRegister_def)
    have "room_inv (handleRegister H ws message s)" using inv by (rule handleRegister_inv)
    then have i': "unique_ids (users s')" "wf_users (users s')" by (simp_all add: h room_inv_def)
    have i2: "room_inv (s1\<lparr>users := m2\<rparr>)"
      unfolding m2_def using inv ex_def s1_def by (rule bind_inv)
    have io': "io s' = io s1 @ [Stringified (RegisteredMessage p), Sent ws (RegisteredMessage p)]
                   @ pass_events H (UserListMessage (userList m2)) s3" by (rule c(3))
    have new: "new_events s s' = evs @ [Stringified (RegisteredMessage p), Sent ws (RegisteredMessage p)]
                   @ pass_events H (UserListMessage (userList m2)) s3"
      by (rule new_events_append) (simp add: io' evs)
    have fl: "failures (new_events s s') = F"
      unfolding new by (simp add: failures_append evs F_def)
    have bound2: "bound_to (p_id p) m2 = [ws]"
    proof -
      have "(ws, new_userInfo ws k p) \<in> set m2" unfolding m2_def by (rule map_set_mem)
      then have "bound_to (u_id (new_userInfo ws k p)) m2 = [ws]"
        using i2 by (intro bound_to_unique) (simp_all add: room_inv_def)
      then show ?thesis by simp
    qed
    have bound: "bound_to (p_id p) (users s') = (if ws \<in> set (failures (new_events s s')) then [] else [ws])"
      unfolding fl c(4) bound_to_filter_keys bound2 by simp
    have us: "users s' = filter (\<lambda>entry. fst entry \<notin> set (failures (new_events s s'))) m2"
      unfolding fl by (rule c(4))
    show ?thesis by (intro conjI h i' bound new us)
  qed
  have first: "register_try H ws message s = (Normal, s') \<longrightarrow>
            handleRegister H ws message s = s'
          \<and> unique_ids (users s') \<and> wf_users (users s')
          \<and> bound_to (p_id p) (users s')
              = (if ws \<in> set (failures (new_events s s')) then [] else [ws])"
    using completed by blast
  have evict: "users (snd (register_evict H ws (Some e) s)) = map_delete (u_webSocket e) (users s)
            \<and> bound_to (p_id p) (users (snd (register_evict H ws (Some e) s))) = []
            \<and> (closeThrows H (io s) (u_webSocket e) \<longrightarrow>
                 fst (register_try H ws message s) = Thrown
               \<and> users (handleRegister H ws message s) = map_delete (u_webSocket e) (users s)
               \<and> bound_to (p_id p) (users (handleRegister H ws message s)) = [])
            \<and> (register_try H ws message s = (Normal, s') \<longrightarrow>
                 map_get (u_webSocket e) (users s') = None
               \<and> take 3 (new_events s s')
                    = [Closed (u_webSocket e), Stringified (RegisteredMessage p),
                       Sent ws (RegisteredMessage p)]
               \<and> users s'
                    = filter (\<lambda>entry. fst entry \<notin> set (failures (new_events s s')))
                        (map_set ws (new_userInfo ws k p)
                           (users (snd (register_evict H ws (Some e) s)))))"
    if e: "findUserById (p_id p) (map_values (users s)) = Some e" "u_webSocket e \<noteq> ws" for e
  proof -
    have exe: "ex = Some e" using e by (simp add: ex_def)
    have u1: "users (snd (register_evict H ws (Some e) s)) = map_delete (u_webSocket e) (users s)"
      using e(2) by (simp add: register_evict_users)
    have b1: "bound_to (p_id p) (users (snd (register_evict H ws (Some e) s))) = []"
      unfolding u1 using wfu un e(1) by (rule bound_to_evicted)
    have thrown: "fst (register_try H ws message s) = Thrown
               \<and> users (handleRegister H ws message s) = map_delete (u_webSocket e) (users s)
               \<and> bound_to (p_id p) (users (handleRegister H ws message s)) = []"
      if ct: "closeThrows H (io s) (u_webSocket e)"
    proof -
      have f: "fst (register_evict H ws (Some e) s) = Thrown"
        using e(2) ct by (simp add: register_evict_fst)
      have r: "register_try H ws message s = (Thrown, snd (register_evict H ws (Some e) s))"
        unfolding register_outcome [OF frame profile] e(1) using f by simp
      have h: "users (handleRegister H ws message s) = map_delete (u_webSocket e) (users s)"
        by (simp add: handleRegister_def r u1)
      show ?thesis using r h b1 [unfolded u1] by simp
    qed
    have done_: "map_get (u_webSocket e) (users s') = None
               \<and> take 3 (new_events s s')
                    = [Closed (u_webSocket e), Stringified (RegisteredMessage p),
                       Sent ws (RegisteredMessage p)]
               \<and> users s'
                    = filter (\<lambda>entry. fst entry \<notin> set (failures (new_events s s')))
                        (map_set ws (new_userInfo ws k p)
                           (users (snd (register_evict H ws (Some e) s))))"
      if fin: "register_try H ws message s = (Normal, s')"
    proof -
      note c = completed [OF fin]
      have n: "fst (register_evict H ws ex s) = Normal"
        using register_completed(1) [OF wf frame profile fin] by (simp add: ex_def)
      have us: "users s' = filter (\<lambda>entry. fst entry \<notin> set (failures (new_events s s'))) m2"
        using c by blast
      have "users s1 = map_delete (u_webSocket e) (users s)"
        using u1 by (simp add: s1_def exe)
      then have "map_get (u_webSocket e) m2 = None"
        using e(2) by (simp add: m2_def map_get_map_set map_get_map_delete)
      then have gone: "map_get (u_webSocket e) (users s') = None"
        unfolding us by (rule map_get_filter_None)
      have "io s1 = io s @ [Closed (u_webSocket e)]"
        unfolding s1_def exe using e(2) n [unfolded exe] by (rule register_evict_io_other)
      then have "evs = [Closed (u_webSocket e)]" using evs by simp
      moreover have "new_events s s' = evs @ [Stringified (RegisteredMessage p), Sent ws (RegisteredMessage p)]
                 @ pass_events H (UserListMessage (userList m2)) s3"
        using c by blast
      ultimately have t3: "take 3 (new_events s s')
                    = [Closed (u_webSocket e), Stringified (RegisteredMessage p),
                       Sent ws (RegisteredMessage p)]" by simp
      show ?thesis
        using gone t3 us by (simp add: m2_def s1_def exe)
    qed
    show ?thesis using u1 b1 thrown done_ by blast
  qed
  have second: "\<forall>e. findUserById (p_id p) (map_values (users s)) = Some e \<and> u_webSocket e \<noteq> ws \<longrightarrow>
              users (snd (register_evict H ws (Some e) s)) = map_delete (u_webSocket e) (users s)
            \<and> bound_to (p_id p) (users (snd (register_evict H ws (Some e) s))) = []
            \<and> (closeThrows H (io s) (u_webSocket e) \<longrightarrow>
                 fst (register_try H ws message s) = Thrown
               \<and> users (handleRegister H ws message s) = map_delete (u_webSocket e) (users s)
               \<and> bound_to (p_id p) (users (handleRegister H ws message s)) = [])
            \<and> (register_try H ws message s = (Normal, s') \<longrightarrow>
                 map_get (u_webSocket e) (users s') = None
               \<and> take 3 (new_events s s')
                    = [Closed (u_webSocket e), Stringified (RegisteredMessage p),
                       Sent ws (RegisteredMessage p)]
               \<and> users s'
                    = filter (\<lambda>entry. fst entry \<notin> set (failures (new_events s s')))
                        (map_set ws (new_userInfo ws k p)
                           (users (snd (register_evict H ws (Some e) s)))))"
    using evict by (intro allI impI) (erule conjE)
  show ?thesis by (intro conjI first second)
qed

text \<open>Channel 3 registers Alice's key while channel 4 holds it; delivery to 2 throws.
  Then the same on a host whose sockets refuse to close.\<close>

theorem registration_keeps_one_channel_per_id_witness:
  "room_inv sample_room
   \<and> fst (register_try sample_host 3 register_alice sample_room) = Normal
   \<and> unique_ids (users (handleRegister sample_host 3 register_alice sample_room))
   \<and> map_get 4 (users (handleRegister sample_host 3 register_alice sample_room)) = None
   \<and> take 3 (new_events sample_room (handleRegister sample_host 3 register_alice sample_room))
        = [Closed 4, Stringified (RegisteredMessage alice_profile), Sent 3 (RegisteredMessage alice_profile)]
   \<and> failures (new_events sample_room (handleRegister sample_host 3 register_alice sample_room)) = [2]
   \<and> bound_to (str ''AB12CD'') (users (handleRegister sample_host 3 register_alice sample_room)) = [3]
   \<and> bound_to (str ''AB12CD'') (users (snd (register_evict sample_host 3 (Some alice) sample_room))) = []
   \<and> closeThrows close_refusing_host (io sample_room) 4
   \<and> fst (register_try close_refusing_host 3 register_alice sample_room) = Thrown
   \<and> users (handleRegister close_refusing_host 3 register_alice sample_room) = []"
proof -
  let ?s' = "handleRegister sample_host 3 register_alice sample_room"
  have k: "alice_key \<noteq> []" "isValidPGPPublicKey alice_key" using alice_key_valid by simp_all
  have run: "register_try sample_host 3 register_alice sample_room = (Normal, ?s')"
    using sample_fst by (rule register_try_Normal)
  have one: "u_webSocket alice \<noteq> 3" "u_webSocket alice = 4" by (simp_all add: alice_def)
  have found: "findUserById (p_id alice_profile) (map_values (users sample_room)) = Some alice \<and> u_webSocket alice \<noteq> 3"
    using sample_room_found one by simp
  note claim = registration_keeps_one_channel_per_id
      [OF sample_room_inv register_alice_key k sample_extract, where ws = 3 and s' = "?s'"]
  have completed: "unique_ids (users ?s')"
      "bound_to (p_id alice_profile) (users ?s') = (if 3 \<in> set (failures (new_events sample_room ?s')) then [] else [3])"
    using claim run by blast+
  have evicted: "map_get (u_webSocket alice) (users ?s') = None"
      "take 3 (new_events sample_room ?s')
         = [Closed (u_webSocket alice), Stringified (RegisteredMessage alice_profile), Sent 3 (RegisteredMessage alice_profile)]"
      "bound_to (p_id alice_profile) (users (snd (register_evict sample_host 3 (Some alice) sample_room))) = []"
    using claim run found by blast+
  have wf: "wf_sessions sample_room" using sample_room_inv by (simp add: room_inv_def)
  obtain f tr where new: "new_events sample_room ?s'
           = new_events sample_room
               (snd (register_evict sample_host 3
                  (findUserById (p_id alice_profile) (map_values (users sample_room))) sample_room))
             @ [Stringified (RegisteredMessage alice_profile), Sent 3 (RegisteredMessage alice_profile),
                Stringified f]
             @ deliveries sample_host f (live (sessions sample_room)) tr"
    using register_completed_new [OF wf register_alice_key k sample_extract run] by blast
  have fl: "failures (new_events sample_room ?s') = [2]"
    unfolding new
    by (simp add: failures_append register_evict_failures sample_deliveries') (simp add: sample_room_def)
  have ex: "extractUserProfile close_refusing_host alice_key = Some alice_profile"
    unfolding close_refusing_host_def by (rule host_extracts)
  have ct: "closeThrows close_refusing_host (io sample_room) (u_webSocket alice)"
    by (simp add: close_refusing_host_def)
  note claim2 = registration_keeps_one_channel_per_id
      [OF sample_room_inv register_alice_key k ex, where ws = 3]
  have refused: "fst (register_try close_refusing_host 3 register_alice sample_room) = Thrown"
      "users (handleRegister close_refusing_host 3 register_alice sample_room)
         = map_delete (u_webSocket alice) (users sample_room)"
    using claim2 found ct by blast+
  have md: "map_delete 4 (users sample_room) = []"
    by (simp add: sample_room_def map_delete_def)
  have pid: "p_id alice_profile = str ''AB12CD''" by (simp add: alice_profile_def)
  show ?thesis
    using sample_room_inv sample_fst completed evicted ct refused
    unfolding fl one(2) md pid by simp
qed

text \<open>
  Claim C2 as stated fails: channel 3 registers Alice's key while channel 4 holds it, on
  a host on which the roster frames to channel 3 throw. Channel 4 is evicted and closed,
  channel 3 is bound and gets its reply; the rebroadcast to channel 3 throws and removes
  it, and the directory ends with no entry for the id.
\<close>

theorem registration_keeps_one_channel_per_id_counterexample:
  "room_inv sample_room
   \<and> findUserById (p_id alice_profile) (map_values (users sample_room)) = Some alice
   \<and> u_webSocket alice = 4
   \<and> extractUserProfile (roster_refusing 3) alice_key = Some alice_profile
   \<and> fst (register_try (roster_refusing 3) 3 register_alice sample_room) = Normal
   \<and> attempts (new_events sample_room (handleRegister (roster_refusing 3) 3 register_alice sample_room))
       = [(3, RegisteredMessage alice_profile),
          (4, UserListMessage (userList [(3, new_userInfo 3 alice_key alice_profile)])),
          (2, UserListMessage (userList [(3, new_userInfo 3 alice_key alice_profile)])),
          (3, UserListMessage (userList [(3, new_userInfo 3 alice_key alice_profile)]))]
   \<and> failures (new_events sample_room (handleRegister (roster_refusing 3) 3 register_alice sample_room)) = [3]
   \<and> bound_to (p_id alice_profile)
        (users (handleRegister (roster_refusing 3) 3 register_alice sample_room)) = []"
proof -
  let ?H = "roster_refusing 3"
  let ?s' = "handleRegister ?H 3 register_alice sample_room"
  have k: "alice_key \<noteq> []" "isValidPGPPublicKey alice_key" using alice_key_valid by simp_all
  have ex: "extractUserProfile ?H alice_key = Some alice_profile"
    by (rule roster_refusing_extracts)
  have wf: "wf_sessions sample_room" using sample_room_inv by (simp add: room_inv_def)
  have one: "u_webSocket alice \<noteq> 3" "u_webSocket alice = 4" by (simp_all add: alice_def)
  have ok: "fst (register_try ?H 3 register_alice sample_room) = Normal"
    by (simp add: register_try_fst [OF register_alice_key k ex] sample_room_found
        register_evict_fst one) (simp add: roster_refusing_def sample_host_def)
  then have run: "register_try ?H 3 register_alice sample_room = (Normal, ?s')"
    by (rule register_try_Normal)
  note c = register_completed [OF wf register_alice_key k ex run, unfolded sample_room_found]
  have s1: "snd (register_evict ?H 3 (Some alice) sample_room)
      = emit (Closed 4) (sample_room\<lparr>users := []\<rparr>)"
    using one by (simp add: register_evict_other)
       (simp add: roster_refusing_def sample_host_def sample_room_def map_delete_def)
  have m2: "map_set 3 (new_userInfo 3 alice_key alice_profile) (users (emit (Closed 4) (sample_room\<lparr>users := []\<rparr>)))
      = [(3, new_userInfo 3 alice_key alice_profile)]"
    by (simp add: emit_def)
  have l: "live (sessions sample_room) = [4, 2, 3]" by (simp add: sample_room_def)
  have fl: "failures (pass_events ?H (UserListMessage (userList [(3, new_userInfo 3 alice_key alice_profile)]))
               (emit (Sent 3 (RegisteredMessage alice_profile))
                 (JSON_stringify (RegisteredMessage alice_profile)
                   (emit (Closed 4) (sample_room\<lparr>users := []\<rparr>)
                      \<lparr>users := [(3, new_userInfo 3 alice_key alice_profile)]\<rparr>)))) = [3]"
    unfolding pass_events_def
    by (simp add: roster_refusing_deliveries) (simp add: l)
  have users: "users ?s' = []"
    unfolding c(4) s1 m2 fl by simp
  have new: "new_events sample_room ?s' = [Closed 4, Stringified (RegisteredMessage alice_profile), Sent 3 (RegisteredMessage alice_profile)]
        @ pass_events ?H (UserListMessage (userList [(3, new_userInfo 3 alice_key alice_profile)]))
            (emit (Sent 3 (RegisteredMessage alice_profile))
               (JSON_stringify (RegisteredMessage alice_profile)
                  (emit (Closed 4) (sample_room\<lparr>users := []\<rparr>)
                      \<lparr>users := [(3, new_userInfo 3 alice_key alice_profile)]\<rparr>)))"
    by (rule new_events_append) (simp add: c(3) [unfolded s1 m2] emit_def)
  have att: "attempts (new_events sample_room ?s')
       = [(3, RegisteredMessage alice_profile),
          (4, UserListMessage (userList [(3, new_userInfo 3 alice_key alice_profile)])),
          (2, UserListMessage (userList [(3, new_userInfo 3 alice_key alice_profile)])),
          (3, UserListMessage (userList [(3, new_userInfo 3 alice_key alice_profile)]))]"
    unfolding new by (simp add: attempts_append pass_events_attempts c(6) [unfolded s1 m2] l)
  have fails: "failures (new_events sample_room ?s') = [3]"
    unfolding new failures_append fl by simp
  show ?thesis
    using sample_room_inv sample_room_found one(2) ex ok att fails by (simp add: users bound_to_def)
qed

text \<open>
  Claim C3, as the code has it. When a register frame passes the checks and a call then
  throws (the \<open>close\<close> of the evicted channel, or the \<open>send\<close> of the reply), the
  requester is sent the error \<open>Registration failed\<close>, last of all; the session set is what
  it was and no roster is serialised; the directory keeps the steps taken before the
  failure: the eviction when the \<open>close\<close> threw, the eviction and the new binding of the
  requester when the reply threw.
\<close>

theorem failed_registration_keeps_earlier_steps:
  fixes ws :: ws and s :: ChatRoom
  assumes frame: "property message (str ''publicKey'') = Some (Some (JStr k))" "k \<noteq> []"
      "isValidPGPPublicKey k"
    and profile: "extractUserProfile H k = Some p"
    and failed: "register_try H ws message s = (Thrown, t)"
  shows "handleRegister H ws message s = sendError H ws (str ''Registration failed'') t
       \<and> sessions (handleRegister H ws message s) = sessions s
       \<and> users (handleRegister H ws message s) = users t
       \<and> last (attempts (new_events s (handleRegister H ws message s)))
           = (ws, ErrorMessage (str ''Registration failed''))
       \<and> (\<forall>roster. UserListMessage roster \<notin> set (stringified (new_events s (handleRegister H ws message s))))
       \<and> (if fst (register_evict H ws (findUserById (p_id p) (map_values (users s))) s) = Thrown
          then users t = users (snd (register_evict H ws (findUserById (p_id p) (map_values (users s))) s))
          else users t = map_set ws (new_userInfo ws k p)
                 (users (snd (register_evict H ws (findUserById (p_id p) (map_values (users s))) s))))"
proof -
  define ex where "ex = findUserById (p_id p) (map_values (users s))"
  define s1 where "s1 = snd (register_evict H ws ex s)"
  define s2 where "s2 = JSON_stringify (RegisteredMessage p) (s1\<lparr>users := map_set ws (new_userInfo ws k p) (users s1)\<rparr>)"
  define E where "E = ErrorMessage (str ''Registration failed'')"
  note out = register_outcome [OF frame profile, of ws s, folded ex_def, folded s1_def, folded s2_def]
  have h: "handleRegister H ws message s = sendError H ws (str ''Registration failed'') t"
    using failed by (simp add: handleRegister_def)
  have t: "(fst (register_evict H ws ex s) = Thrown \<and> t = s1)
         \<or> (fst (register_evict H ws ex s) \<noteq> Thrown \<and> t = emit (SendFailed ws (RegisteredMessage p)) s2)"
    using failed unfolding out by (auto split: if_splits)
  have se1: "sessions s1 = sessions s" by (simp add: s1_def register_evict_sessions)
  have pre: "\<exists>evs. io s1 = io s @ evs \<and> stringified evs = [] \<and> attempts evs = []"
    by (simp add: s1_def register_evict_io split: option.splits)
  then obtain evs where evs: "io s1 = io s @ evs" "stringified evs = []" "attempts evs = []" by blast
  from t have tio: "\<exists>mid. io t = io s @ mid \<and> (\<forall>roster. UserListMessage roster \<notin> set (stringified mid))"
  proof
    assume "fst (register_evict H ws ex s) = Thrown \<and> t = s1"
    then show ?thesis using evs by auto
  next
    assume "fst (register_evict H ws ex s) \<noteq> Thrown \<and> t = emit (SendFailed ws (RegisteredMessage p)) s2"
    then have "io t = io s @ (evs @ [Stringified (RegisteredMessage p), SendFailed ws (RegisteredMessage p)])"
      by (simp add: s2_def evs)
    moreover have "\<forall>roster. UserListMessage roster
        \<notin> set (stringified (evs @ [Stringified (RegisteredMessage p), SendFailed ws (RegisteredMessage p)]))"
      by (simp add: stringified_append evs)
    ultimately show ?thesis by blast
  qed
  then obtain mid where mid: "io t = io s @ mid" "\<forall>roster. UserListMessage roster \<notin> set (stringified mid)"
    by blast
  let ?x = "if sendThrows H (io t @ [Stringified E]) ws E then SendFailed ws E else Sent ws E"
  have new: "new_events s (handleRegister H ws message s) = mid @ [Stringified E, ?x]"
    by (rule new_events_append) (simp add: h sendError_io mid E_def)
  have last: "last (attempts (new_events s (handleRegister H ws message s))) = (ws, E)"
    unfolding new by (simp add: attempts_append)
  have nolist: "\<forall>roster. UserListMessage roster \<notin> set (stringified (new_events s (handleRegister H ws message s)))"
    unfolding new using mid(2) by (simp add: stringified_append E_def)
  have st: "sessions t = sessions s"
    using t se1 by (auto simp: s2_def)
  have us: "if fst (register_evict H ws ex s) = Thrown then users t = users s1
          else users t = map_set ws (new_userInfo ws k p) (users s1)"
    using t by (auto simp: s2_def)
  show ?thesis
    using h st last nolist us unfolding E_def s1_def ex_def
    by (intro conjI) simp_all
qed

text \<open>Channel 3 registers Alice's key on a host whose sockets refuse to close.\<close>

theorem failed_registration_keeps_earlier_steps_witness:
  "fst (register_try close_refusing_host 3 register_alice sample_room) = Thrown
   \<and> sessions (handleRegister close_refusing_host 3 register_alice sample_room) = sessions sample_room
   \<and> users (handleRegister close_refusing_host 3 register_alice sample_room)
       = map_delete 4 (users sample_room)
   \<and> last (attempts (new_events sample_room (handleRegister close_refusing_host 3 register_alice sample_room)))
       = (3, ErrorMessage (str ''Registration failed''))"
proof -
  let ?H = close_refusing_host
  have k: "alice_key \<noteq> []" "isValidPGPPublicKey alice_key" using alice_key_valid by simp_all
  have ex: "extractUserProfile ?H alice_key = Some alice_profile"
    unfolding close_refusing_host_def by (rule host_extracts)
  have one: "u_webSocket alice \<noteq> 3" "u_webSocket alice = 4" by (simp_all add: alice_def)
  have ev: "fst (register_evict ?H 3 (Some alice) sample_room) = Thrown"
    using one by (simp add: register_evict_fst close_refusing_host_def)
  have thrown: "fst (register_try ?H 3 register_alice sample_room) = Thrown"
    by (simp add: register_try_fst [OF register_alice_key k ex] sample_room_found ev)
  then have run: "register_try ?H 3 register_alice sample_room
      = (Thrown, snd (register_try ?H 3 register_alice sample_room))"
    by (rule register_try_Thrown)
  note claim = failed_registration_keeps_earlier_steps [OF register_alice_key k ex run,
      unfolded sample_room_found ev, simplified]
  have c1: "sessions (handleRegister ?H 3 register_alice sample_room) = sessions sample_room"
    using claim by blast
  have c2: "users (handleRegister ?H 3 register_alice sample_room)
      = users (snd (register_evict ?H 3 (Some alice) sample_room))"
    using claim by simp
  have c3: "last (attempts (new_events sample_room (handleRegister ?H 3 register_alice sample_room)))
       = (3, ErrorMessage (str ''Registration failed''))"
    using claim by blast
  have "users (snd (register_evict ?H 3 (Some alice) sample_room)) = map_delete 4 (users sample_room)"
    using one by (simp add: register_evict_users)
  then show ?thesis
    using thrown c1 c3 unfolding c2 by simp
qed

text \<open>
  Claim C3 as stated fails there: the \<open>close\<close> of channel 4 throws after its entry was
  deleted; the requester gets \<open>Registration failed\<close> and the directory, which held
  Alice on channel 4, is empty.
\<close>

theorem failed_registration_leaves_room_unchanged_counterexample:
  "fst (register_try close_refusing_host 3 register_alice sample_room) = Thrown
   \<and> new_events sample_room (handleRegister close_refusing_host 3 register_alice sample_room)
       = [CloseFailed 4, Stringified (ErrorMessage (str ''Registration failed'')),
          Sent 3 (ErrorMessage (str ''Registration failed''))]
   \<and> users sample_room = [(4, alice)]
   \<and> users (handleRegister close_refusing_host 3 register_alice sample_room) = []"
proof -
  let ?H = close_refusing_host
  have k: "alice_key \<noteq> []" "isValidPGPPublicKey alice_key" using alice_key_valid by simp_all
  have ex: "extractUserProfile ?H alice_key = Some alice_profile"
    unfolding close_refusing_host_def by (rule host_extracts)
  have ev: "register_evict ?H 3 (Some alice) sample_room
      = (Thrown, emit (CloseFailed 4) (sample_room\<lparr>users := map_delete 4 (users sample_room)\<rparr>))"
    by (simp add: register_evict_other alice_def close_refusing_host_def)
  have t: "register_try ?H 3 register_alice sample_room
      = (Thrown, emit (CloseFailed 4) (sample_room\<lparr>users := map_delete 4 (users sample_room)\<rparr>))"
    by (simp add: register_outcome [OF register_alice_key k ex] sample_room_found ev)
  have h: "handleRegister ?H 3 register_alice sample_room
      = sendError ?H 3 (str ''Registration failed'')
          (emit (CloseFailed 4) (sample_room\<lparr>users := map_delete 4 (users sample_room)\<rparr>))"
    by (simp add: handleRegister_def t)
  have new: "new_events sample_room (handleRegister ?H 3 register_alice sample_room)
       = [CloseFailed 4, Stringified (ErrorMessage (str ''Registration failed'')),
          Sent 3 (ErrorMessage (str ''Registration failed''))]"
    unfolding h by (rule new_events_append) (simp add: sendError_io close_refusing_host_def sample_host_def)
  have thrown: "fst (register_try ?H 3 register_alice sample_room) = Thrown"
    by (simp add: t)
  have before: "users sample_room = [(4, alice)]"
    by (simp add: sample_room_def)
  have after: "users (handleRegister ?H 3 register_alice sample_room) = []"
    unfolding h by (simp add: sample_room_def map_delete_def)
  show ?thesis by (intro conjI thrown new before after)
qed

text \<open>
  Claim C4. A message frame is rejected on the first violated precondition: with
  \<open>User not registered\<close> when the sending channel has no directory entry; else with
  \<open>Invalid encrypted data format\<close> when \<open>encryptedData\<close> is absent, empty or not a string;
  else with \<open>Invalid PGP message format\<close> when it lacks the begin marker or the end marker.
  Each rejection is one \<open>sendError\<close>, which leaves directory and session set as they
  were, serialises one error frame and attempts one send, to the sender.
\<close>

theorem message_rejected_on_first_violation:
  "(map_get ws (users s) = None \<longrightarrow>
      handleChatMessage H ws message s = (Normal, sendError H ws (str ''User not registered'') s))
   \<and> (map_get ws (users s) \<noteq> None \<and> property message (str ''encryptedData'') = Some v
        \<and> (\<forall>d. v = Some (JStr d) \<longrightarrow> d = []) \<longrightarrow>
      handleChatMessage H ws message s
        = (Normal, sendError H ws (str ''Invalid encrypted data format'') s))
   \<and> (map_get ws (users s) \<noteq> None \<and> property message (str ''encryptedData'') = Some (Some (JStr d))
        \<and> d \<noteq> []
        \<and> (\<not> includes_js d (str ''-----BEGIN PGP MESSAGE-----'')
             \<or> \<not> includes_js d (str ''-----END PGP MESSAGE-----'')) \<longrightarrow>
      handleChatMessage H ws message s
        = (Normal, sendError H ws (str ''Invalid PGP message format'') s))
   \<and> users (sendError H ws m s) = users s
   \<and> sessions (sendError H ws m s) = sessions s
   \<and> stringified (new_events s (sendError H ws m s)) = [ErrorMessage m]
   \<and> attempts (new_events s (sendError H ws m s)) = [(ws, ErrorMessage m)]"
proof -
  have a: "map_get ws (users s) = None \<longrightarrow>
      handleChatMessage H ws message s = (Normal, sendError H ws (str ''User not registered'') s)"
    by (simp add: handleChatMessage_def)
  have b: "map_get ws (users s) \<noteq> None \<and> property message (str ''encryptedData'') = Some v
        \<and> (\<forall>d. v = Some (JStr d) \<longrightarrow> d = []) \<longrightarrow>
      handleChatMessage H ws message s
        = (Normal, sendError H ws (str ''Invalid encrypted data format'') s)"
    unfolding not_nonempty_string by (auto simp: handleChatMessage_def)
  have c: "map_get ws (users s) \<noteq> None \<and> property message (str ''encryptedData'') = Some (Some (JStr d))
        \<and> d \<noteq> []
        \<and> (\<not> includes_js d (str ''-----BEGIN PGP MESSAGE-----'')
             \<or> \<not> includes_js d (str ''-----END PGP MESSAGE-----'')) \<longrightarrow>
      handleChatMessage H ws message s
        = (Normal, sendError H ws (str ''Invalid PGP message format'') s)"
    by (auto simp: handleChatMessage_def isValidPGPMessage_def)
  show ?thesis
    by (intro conjI a b c sendError_users sendError_sessions sendError_stringified sendError_attempts)
qed

text \<open>Channel 2 is unregistered; Alice on channel 4 sends no data, then data without
  markers.\<close>

theorem message_rejected_on_first_violation_witness:
  "handleChatMessage sample_host 2 (chat_frame (Some (JStr pgp_text))) sample_room
     = (Normal, sendError sample_host 2 (str ''User not registered'') sample_room)
   \<and> handleChatMessage sample_host 4 (chat_frame None) sample_room
     = (Normal, sendError sample_host 4 (str ''Invalid encrypted data format'') sample_room)
   \<and> handleChatMessage sample_host 4 (chat_frame (Some (JStr (str ''hello'')))) sample_room
     = (Normal, sendError sample_host 4 (str ''Invalid PGP message format'') sample_room)
   \<and> users (sendError sample_host 4 (str ''Invalid PGP message format'') sample_room) = users sample_room
   \<and> sessions (sendError sample_host 4 (str ''Invalid PGP message format'') sample_room) = sessions sample_room
   \<and> attempts (new_events sample_room (sendError sample_host 4 (str ''Invalid PGP message format'') sample_room))
       = [(4, ErrorMessage (str ''Invalid PGP message format''))]"
proof -
  note a = message_rejected_on_first_violation
      [where ws = 2 and s = sample_room and H = sample_host
         and message = "chat_frame (Some (JStr pgp_text))"]
  note b = message_rejected_on_first_violation
      [where ws = 4 and s = sample_room and H = sample_host and message = "chat_frame None"
         and v = None]
  note c = message_rejected_on_first_violation
      [where ws = 4 and s = sample_room and H = sample_host
         and message = "chat_frame (Some (JStr (str ''hello'')))" and d = "str ''hello''"
         and m = "str ''Invalid PGP message format''"]
  have hello: "str ''hello'' \<noteq> [] \<and> \<not> includes_js (str ''hello'') (str ''-----BEGIN PGP MESSAGE-----'')"
    by (simp add: str_def)
  have 1: "handleChatMessage sample_host 2 (chat_frame (Some (JStr pgp_text))) sample_room
     = (Normal, sendError sample_host 2 (str ''User not registered'') sample_room)"
    using a sample_room_alice(2) by blast
  have 2: "handleChatMessage sample_host 4 (chat_frame None) sample_room
     = (Normal, sendError sample_host 4 (str ''Invalid encrypted data format'') sample_room)"
    using b sample_room_alice(1) chat_frame_data [of None] by simp
  have 3: "handleChatMessage sample_host 4 (chat_frame (Some (JStr (str ''hello'')))) sample_room
     = (Normal, sendError sample_host 4 (str ''Invalid PGP message format'') sample_room)"
    using c sample_room_alice(1) chat_frame_data [of "Some (JStr (str ''hello''))"] hello by simp
  show ?thesis using 1 2 3 c by blast
qed

text \<open>
  Claim C5. In a broadcast pass over a well-formed session set, the frame is serialised
  once, before any delivery; delivery is attempted once to each channel that is in the
  session set when the pass starts, in the order of the set, each with the same text; a
  channel whose delivery throws is removed from the session set and from the directory,
  no other channel is, and the pass goes on to the remaining channels. The pass, which
  iterates the live set while deleting from it, does what a pass over a snapshot of the
  set does.
\<close>

theorem broadcast_visits_each_session_once:
  assumes "wf_sessions s"
  shows "broadcast H f s = spec_broadcast H f s
       \<and> new_events s (broadcast H f s)
           = Stringified f # deliveries H f (live (sessions s)) (io s @ [Stringified f])
       \<and> io (broadcast H f s) = io s @ new_events s (broadcast H f s)
       \<and> stringified (new_events s (broadcast H f s)) = [f]
       \<and> attempts (new_events s (broadcast H f s)) = map (\<lambda>c. (c, f)) (live (sessions s))
       \<and> distinct (map fst (attempts (new_events s (broadcast H f s))))
       \<and> live (sessions (broadcast H f s))
           = filter (\<lambda>c. c \<notin> set (failures (new_events s (broadcast H f s)))) (live (sessions s))
       \<and> users (broadcast H f s)
           = filter (\<lambda>entry. fst entry \<notin> set (failures (new_events s (broadcast H f s)))) (users s)"
proof -
  let ?new = "Stringified f # deliveries H f (live (sessions s)) (io s @ [Stringified f])"
  have eq: "broadcast H f s = spec_broadcast H f s"
    by (rule broadcast_snapshot)
  have io: "io (broadcast H f s) = io s @ ?new"
    by (simp add: eq spec_broadcast_new)
  then have new: "new_events s (broadcast H f s) = ?new"
    by (rule new_events_append)
  have att: "attempts ?new = map (\<lambda>c. (c, f)) (live (sessions s))"
    by (simp add: deliveries_attempts)
  have dist: "distinct (map fst (attempts ?new))"
    using assms by (simp add: deliveries_attempts comp_def wf_sessions_def)
  have str: "stringified ?new = [f]"
    by (simp add: deliveries_stringified)
  have fl: "failures ?new = failures (deliveries H f (live (sessions s)) (io s @ [Stringified f]))"
    by simp
  show ?thesis
    unfolding new using eq io att dist str
    by (simp only: fl spec_broadcast_sessions [OF assms] spec_broadcast_users)
qed

text \<open>A room with sessions 4, 2, 3 and a deleted entry; delivery to 2 throws.\<close>

theorem broadcast_visits_each_session_once_witness:
  "wf_sessions sample_room
   \<and> attempts (new_events sample_room (broadcast sample_host (ErrorMessage []) sample_room))
       = [(4, ErrorMessage []), (2, ErrorMessage []), (3, ErrorMessage [])]
   \<and> failures (new_events sample_room (broadcast sample_host (ErrorMessage []) sample_room)) = [2]
   \<and> live (sessions (broadcast sample_host (ErrorMessage []) sample_room)) = [4, 3]
   \<and> stringified (new_events sample_room (broadcast sample_host (ErrorMessage []) sample_room)) = [ErrorMessage []]"
proof -
  have wf: "wf_sessions sample_room"
    by (simp add: wf_sessions_def sample_room_def)
  note pass = broadcast_visits_each_session_once [OF wf, of sample_host "ErrorMessage []"]
  have "new_events sample_room (broadcast sample_host (ErrorMessage []) sample_room)
      = Stringified (ErrorMessage [])
          # deliveries sample_host (ErrorMessage []) (live (sessions sample_room))
              (io sample_room @ [Stringified (ErrorMessage [])])"
    using pass by blast
  also have "\<dots> = [Stringified (ErrorMessage []), Sent 4 (ErrorMessage []),
         SendFailed 2 (ErrorMessage []), Sent 3 (ErrorMessage [])]"
    by (simp add: sample_room_def sample_host_def)
  finally have new: "new_events sample_room (broadcast sample_host (ErrorMessage []) sample_room)
      = [Stringified (ErrorMessage []), Sent 4 (ErrorMessage []), SendFailed 2 (ErrorMessage []),
         Sent 3 (ErrorMessage [])]" .
  have after: "live (sessions (broadcast sample_host (ErrorMessage []) sample_room))
      = filter (\<lambda>c. c \<notin> set (failures (new_events sample_room
           (broadcast sample_host (ErrorMessage []) sample_room)))) (live (sessions sample_room))"
    using pass by blast
  show ?thesis
    using wf after unfolding new by (simp add: sample_room_def)
qed

text \<open>
  Claim C6, as the code has it. A payload that \<open>JSON.parse\<close> rejects is answered with
  one error \<open>Invalid JSON format\<close>, to its channel, the room unchanged. A decoded frame
  is dispatched on \<open>type\<close> to \<open>handleRegister\<close>, \<open>handleGetUsers\<close> or
  \<open>handleChatMessage\<close>; for every other \<open>type\<close> of a frame that is not \<open>null\<close>, an absent
  one included (it reads \<open>undefined\<close>), the answer is \<open>Unknown message type: \<close> followed by
  the type as a string, to its channel only. What throws inside the dispatch is answered
  \<open>Invalid JSON format\<close> by the same \<open>catch\<close>: the frame \<open>null\<close>, a type with no string
  conversion, a throwing send of \<open>handleGetUsers\<close>.
\<close>

theorem frames_dispatch_on_type:
  "on_message H ws None s = sendError H ws (str ''Invalid JSON format'') s
   \<and> (property m (str ''type'') = Some (Some (JStr (str ''register''))) \<longrightarrow>
        on_message H ws (Some m) s = handleRegister H ws m s)
   \<and> (property m (str ''type'') = Some (Some (JStr (str ''getUsers''))) \<longrightarrow>
        on_message H ws (Some m) s
          = (if fst (handleGetUsers H ws s) = Normal then snd (handleGetUsers H ws s)
             else sendError H ws (str ''Invalid JSON format'') (snd (handleGetUsers H ws s))))
   \<and> (property m (str ''type'') = Some (Some (JStr (str ''message''))) \<longrightarrow>
        on_message H ws (Some m) s = snd (handleChatMessage H ws m s))
   \<and> (property m (str ''type'') = Some t
        \<and> t \<noteq> Some (JStr (str ''register'')) \<and> t \<noteq> Some (JStr (str ''getUsers''))
        \<and> t \<noteq> Some (JStr (str ''message'')) \<and> template_string t = Some shown \<longrightarrow>
        on_message H ws (Some m) s = sendError H ws (str ''Unknown message type: '' @ shown) s)
   \<and> (property m (str ''type'') = Some t
        \<and> t \<noteq> Some (JStr (str ''register'')) \<and> t \<noteq> Some (JStr (str ''getUsers''))
        \<and> t \<noteq> Some (JStr (str ''message'')) \<and> template_string t = None \<longrightarrow>
        on_message H ws (Some m) s = sendError H ws (str ''Invalid JSON format'') s)
   \<and> (m = JNull \<longrightarrow> on_message H ws (Some m) s = sendError H ws (str ''Invalid JSON format'') s)
   \<and> (m \<noteq> JNull \<longrightarrow> property m (str ''type'') \<noteq> None)
   \<and> template_string None = Some (str ''undefined'')
   \<and> template_string (Some (JStr name)) = Some name
   \<and> users (sendError H ws msg s) = users s
   \<and> sessions (sendError H ws msg s) = sessions s
   \<and> attempts (new_events s (sendError H ws msg s)) = [(ws, ErrorMessage msg)]"
proof -
  have reg: "property m (str ''type'') = Some (Some (JStr (str ''register''))) \<longrightarrow>
        on_message H ws (Some m) s = handleRegister H ws m s"
    by (simp add: on_message_def handleMessage_def)
  have get: "property m (str ''type'') = Some (Some (JStr (str ''getUsers''))) \<longrightarrow>
        on_message H ws (Some m) s
          = (if fst (handleGetUsers H ws s) = Normal then snd (handleGetUsers H ws s)
             else sendError H ws (str ''Invalid JSON format'') (snd (handleGetUsers H ws s)))"
    by (cases "handleGetUsers H ws s"; cases "fst (handleGetUsers H ws s)")
       (auto simp: on_message_def handleMessage_def str_def)
  have msg: "property m (str ''type'') = Some (Some (JStr (str ''message''))) \<longrightarrow>
        on_message H ws (Some m) s = snd (handleChatMessage H ws m s)"
  proof
    assume t: "property m (str ''type'') = Some (Some (JStr (str ''message'')))"
    then have "fst (handleChatMessage H ws m s) = Normal" by (rule handleChatMessage_returns)
    then show "on_message H ws (Some m) s = snd (handleChatMessage H ws m s)"
      using t by (cases "handleChatMessage H ws m s") (simp add: on_message_def handleMessage_def str_def)
  qed
  have other: "property m (str ''type'') = Some t
        \<and> t \<noteq> Some (JStr (str ''register'')) \<and> t \<noteq> Some (JStr (str ''getUsers''))
        \<and> t \<noteq> Some (JStr (str ''message'')) \<and> template_string t = Some shown \<longrightarrow>
        on_message H ws (Some m) s = sendError H ws (str ''Unknown message type: '' @ shown) s"
    by (simp add: on_message_def handleMessage_def)
  have unshown: "property m (str ''type'') = Some t
        \<and> t \<noteq> Some (JStr (str ''register'')) \<and> t \<noteq> Some (JStr (str ''getUsers''))
        \<and> t \<noteq> Some (JStr (str ''message'')) \<and> template_string t = None \<longrightarrow>
        on_message H ws (Some m) s = sendError H ws (str ''Invalid JSON format'') s"
    by (simp add: on_message_def handleMessage_def)
  have null: "m = JNull \<longrightarrow> on_message H ws (Some m) s = sendError H ws (str ''Invalid JSON format'') s"
    by (simp add: on_message_def handleMessage_def)
  have nonnull: "m \<noteq> JNull \<longrightarrow> property m (str ''type'') \<noteq> None"
    by (simp add: property_None)
  have bad: "on_message H ws None s = sendError H ws (str ''Invalid JSON format'') s"
    by (simp add: on_message_def)
  show ?thesis
    by (intro conjI bad reg get msg other unshown null nonnull sendError_users sendError_sessions
        sendError_attempts) simp_all
qed

text \<open>An undecodable payload, an unknown type, a number, a type that cannot be shown, and
  a register frame.\<close>

theorem frames_dispatch_on_type_witness:
  "on_message sample_host 4 None sample_room
     = sendError sample_host 4 (str ''Invalid JSON format'') sample_room
   \<and> on_message sample_host 4 (Some (JObj [(str ''type'', JStr (str ''ping''))])) sample_room
     = sendError sample_host 4 (str ''Unknown message type: ping'') sample_room
   \<and> on_message sample_host 4 (Some (JNum (str ''5''))) sample_room
     = sendError sample_host 4 (str ''Unknown message type: undefined'') sample_room
   \<and> on_message sample_host 4 (Some (JObj [(str ''type'', JObj [(str ''toString'', JNull)])])) sample_room
     = sendError sample_host 4 (str ''Invalid JSON format'') sample_room
   \<and> on_message sample_host 4 (Some register_alice) sample_room
     = handleRegister sample_host 4 register_alice sample_room
   \<and> attempts (new_events sample_room (sendError sample_host 4 (str ''Unknown message type: ping'') sample_room))
     = [(4, ErrorMessage (str ''Unknown message type: ping''))]"
proof -
  note a = frames_dispatch_on_type [where H = sample_host and ws = 4 and s = sample_room
      and m = "JObj [(str ''type'', JStr (str ''ping''))]" and t = "Some (JStr (str ''ping''))"
      and shown = "str ''ping''" and msg = "str ''Unknown message type: ping''"]
  note b = frames_dispatch_on_type [where H = sample_host and ws = 4 and s = sample_room
      and m = "JNum (str ''5'')" and t = None and shown = "str ''undefined''"]
  note c = frames_dispatch_on_type [where H = sample_host and ws = 4 and s = sample_room
      and m = "JObj [(str ''type'', JObj [(str ''toString'', JNull)])]"
      and t = "Some (JObj [(str ''toString'', JNull)])"]
  note d = frames_dispatch_on_type [where H = sample_host and ws = 4 and s = sample_room
      and m = register_alice]
  have 1: "on_message sample_host 4 None sample_room
     = sendError sample_host 4 (str ''Invalid JSON format'') sample_room"
    using a by blast
  have 2: "on_message sample_host 4 (Some (JObj [(str ''type'', JStr (str ''ping''))])) sample_room
     = sendError sample_host 4 (str ''Unknown message type: '' @ str ''ping'') sample_room"
    using a by (simp add: str_def)
  have 3: "on_message sample_host 4 (Some (JNum (str ''5''))) sample_room
     = sendError sample_host 4 (str ''Unknown message type: '' @ str ''undefined'') sample_room"
    using b by (simp add: str_def)
  have 4: "on_message sample_host 4 (Some (JObj [(str ''type'', JObj [(str ''toString'', JNull)])])) sample_room
     = sendError sample_host 4 (str ''Invalid JSON format'') sample_room"
    using c by (simp add: str_def)
  have 5: "on_message sample_host 4 (Some register_alice) sample_room
     = handleRegister sample_host 4 register_alice sample_room"
    using d by (simp add: register_alice_def str_def)
  have 6: "attempts (new_events sample_room (sendError sample_host 4 (str ''Unknown message type: ping'') sample_room))
     = [(4, ErrorMessage (str ''Unknown message type: ping''))]"
    using a by blast
  have cat: "str ''Unknown message type: '' @ str ''ping'' = str ''Unknown message type: ping''"
    "str ''Unknown message type: '' @ str ''undefined'' = str ''Unknown message type: undefined''"
    by (simp_all add: str_def)
  show ?thesis
    using 1 2 3 4 5 6 unfolding cat by (intro conjI)
qed

text \<open>
  Claim C6 as stated fails on the payload \<open>null\<close>: it decodes, it has no \<open>type\<close>, and the
  answer is \<open>Invalid JSON format\<close>, not \<open>Unknown message type: undefined\<close>.
\<close>

theorem null_frame_is_not_unknown_type_counterexample:
  "property JNull (str ''type'') = None
   \<and> attempts (new_events sample_room (on_message sample_host 4 (Some JNull) sample_room))
       = [(4, ErrorMessage (str ''Invalid JSON format''))]
   \<and> (4, ErrorMessage (str ''Unknown message type: undefined''))
       \<notin> set (attempts (new_events sample_room (on_message sample_host 4 (Some JNull) sample_room)))"
proof -
  have h: "on_message sample_host 4 (Some JNull) sample_room
      = sendError sample_host 4 (str ''Invalid JSON format'') sample_room"
    by (simp add: on_message_def handleMessage_def)
  show ?thesis
    unfolding h sendError_attempts by (simp add: str_def)
qed

text \<open>
  Claim C7. \<open>extractUserProfile\<close> resolves to a profile for every input and every
  behaviour of the key parser, and never rejects. What the \<open>try\<close> throws is caught:
  that is a failure of \<open>readKey\<close>, \<open>getPrimaryUser\<close> or \<open>getFingerprint\<close>, and then the
  result is that of \<open>fallbackExtractUserProfile\<close>. The fallback, which nothing guards,
  throws nowhere: every match of its expression has both groups, so neither
  \<open>match[1].trim()\<close> nor \<open>match[2].trim()\<close> meets \<open>undefined\<close>. Its profile has the weak
  hash as id and, as name and email, the trimmed groups of the last matching comment
  line, or the defaults when no line matches. The total function that the registration
  handler is modelled with is this one.
\<close>

theorem extraction_never_throws:
  "(\<exists>p. extractUserProfile_raw H k = Some p)
   \<and> extractUserProfile_raw H k = extractUserProfile H k
   \<and> (extract_try H k = None
        \<longleftrightarrow> (readKey H k = None
             \<or> (\<exists>key. readKey H k = Some key
                     \<and> (getPrimaryUser key = Rejects \<or> getFingerprint key = None))))
   \<and> (extract_try H k = None \<longrightarrow>
        extractUserProfile_raw H k = fallbackExtractUserProfile_raw H k)
   \<and> fallbackExtractUserProfile_raw H k
       = Some (case comment_lines k of
                 [] \<Rightarrow> \<lparr>p_id = generateUserIdFromKey k, p_name = str ''User_'' @ randomSuffix H,
                        p_email = toLowerCase H (str ''User_'' @ randomSuffix H) @ str ''@example.com''\<rparr>
               | g # gs \<Rightarrow> \<lparr>p_id = generateUserIdFromKey k, p_name = trim (fst (last (g # gs))),
                            p_email = trim (snd (last (g # gs)))\<rparr>)"
proof -
  have fb: "fallbackExtractUserProfile_raw H k = Some (fallbackExtractUserProfile H k)"
    by (rule fallback_raw_total)
  have same: "extractUserProfile_raw H k = extractUserProfile H k"
    by (simp add: extractUserProfile_raw_def extractUserProfile_def fb split: option.splits)
  have some: "\<exists>p. extractUserProfile_raw H k = Some p"
    by (cases "extract_try H k") (simp_all add: extractUserProfile_raw_def fb)
  have fails: "extract_try H k = None
        \<longleftrightarrow> (readKey H k = None
             \<or> (\<exists>key. readKey H k = Some key
                     \<and> (getPrimaryUser key = Rejects \<or> getFingerprint key = None)))"
    by (auto simp: extract_try_def Let_def split: option.splits primaryUser.splits prod.splits)
  have falls: "extract_try H k = None \<longrightarrow>
        extractUserProfile_raw H k = fallbackExtractUserProfile_raw H k"
    by (simp add: extractUserProfile_raw_def)
  have found: "fallbackExtractUserProfile_raw H k
       = Some (case comment_lines k of
                 [] \<Rightarrow> \<lparr>p_id = generateUserIdFromKey k, p_name = str ''User_'' @ randomSuffix H,
                        p_email = toLowerCase H (str ''User_'' @ randomSuffix H) @ str ''@example.com''\<rparr>
               | g # gs \<Rightarrow> \<lparr>p_id = generateUserIdFromKey k, p_name = trim (fst (last (g # gs))),
                            p_email = trim (snd (last (g # gs)))\<rparr>)"
    unfolding fb
    by (simp add: fallbackExtractUserProfile_def Let_def scan_lines_last comment_lines_def
        split: prod.splits list.splits)
  show ?thesis by (intro conjI some same fails falls found)
qed

text \<open>A key that the parser rejects, with a comment line after a line that is not
  scanned.\<close>

theorem extraction_never_throws_witness:
  "extract_try sample_host bob_key = None
   \<and> extractUserProfile_raw sample_host bob_key
       = Some \<lparr>p_id = generateUserIdFromKey bob_key, p_name = str ''Bob'', p_email = str ''bob@x.org''\<rparr>
   \<and> extractUserProfile sample_host bob_key
       = Some \<lparr>p_id = generateUserIdFromKey bob_key, p_name = str ''Bob'', p_email = str ''bob@x.org''\<rparr>"
proof -
  note claim = extraction_never_throws [of sample_host bob_key]
  have none: "extract_try sample_host bob_key = None"
    using claim bob_key_rejected by blast
  then have a: "extractUserProfile_raw sample_host bob_key = fallbackExtractUserProfile_raw sample_host bob_key"
    using claim by blast
  have b: "fallbackExtractUserProfile_raw sample_host bob_key
      = Some \<lparr>p_id = generateUserIdFromKey bob_key, p_name = str ''Bob'', p_email = str ''bob@x.org''\<rparr>"
    using claim unfolding bob_key_comment_lines by (simp add: bob_trim)
  have c: "extractUserProfile_raw sample_host bob_key = extractUserProfile sample_host bob_key"
    using claim by blast
  show ?thesis using none a b c by simp
qed

text \<open>
  Claim C8, as the code has it. When key parsing succeeds, name and email come from the
  primary user-id string in priority order: the two groups of a \<open>Name <email>\<close> match,
  trimmed; otherwise, for a string with an \<open>@\<close>, the trimmed string as email and what
  precedes its first \<open>@\<close> as name; otherwise the trimmed string as name and no email.
  The profile, which is the profile of the \<open>registered\<close> reply, carries each of the two
  when it is not empty; an empty name is replaced by \<open>User_\<close> and the random suffix, an
  empty email by the lowercased name without white space and \<open>@example.com\<close>.
\<close>

theorem profile_from_primary_user_id:
  assumes key: "readKey H k = Some key" "getPrimaryUser key = UserID u"
      "getFingerprint key = Some fp"
  shows "(match_userid u = Some (g1, g2) \<longrightarrow> parse_userIdString u = (trim g1, trim g2))
       \<and> (match_userid u = None \<and> includes_js u [AT] \<longrightarrow>
            parse_userIdString u = (takeWhile (\<lambda>c. c \<noteq> AT) (trim u), trim u))
       \<and> (match_userid u = None \<and> \<not> includes_js u [AT] \<longrightarrow> parse_userIdString u = (trim u, []))
       \<and> (\<exists>p. extractUserProfile H k = Some p
             \<and> p_id p = toUpperCase H fp
             \<and> p_name p = (if fst (parse_userIdString u) = [] then str ''User_'' @ randomSuffix H
                            else fst (parse_userIdString u))
             \<and> p_email p = (if snd (parse_userIdString u) = []
                             then stripWhiteSpace (toLowerCase H (p_name p)) @ str ''@example.com''
                             else snd (parse_userIdString u))
             \<and> (\<forall>ws message s.
                   wf_sessions s \<and> property message (str ''publicKey'') = Some (Some (JStr k))
                   \<and> k \<noteq> [] \<and> isValidPGPPublicKey k
                   \<and> fst (register_evict H ws (findUserById (p_id p) (map_values (users s))) s) = Normal
                   \<longrightarrow> hd (attempts (new_events s (handleRegister H ws message s)))
                         = (ws, RegisteredMessage p)))"
proof -
  have a: "match_userid u = Some (g1, g2) \<longrightarrow> parse_userIdString u = (trim g1, trim g2)"
    by (simp add: parse_userIdString_def)
  have b: "match_userid u = None \<and> includes_js u [AT] \<longrightarrow>
            parse_userIdString u = (takeWhile (\<lambda>c. c \<noteq> AT) (trim u), trim u)"
    by (simp add: parse_userIdString_def Let_def hd_split)
  have c: "match_userid u = None \<and> \<not> includes_js u [AT] \<longrightarrow> parse_userIdString u = (trim u, [])"
    by (simp add: parse_userIdString_def)
  let ?p = "\<lparr>p_id = toUpperCase H fp,
             p_name = (if fst (parse_userIdString u) = [] then str ''User_'' @ randomSuffix H
                       else fst (parse_userIdString u)),
             p_email = (if snd (parse_userIdString u) = []
                        then stripWhiteSpace
                               (toLowerCase H
                                  (if fst (parse_userIdString u) = [] then str ''User_'' @ randomSuffix H
                                   else fst (parse_userIdString u)))
                             @ str ''@example.com''
                        else snd (parse_userIdString u))\<rparr>"
  have ex: "extractUserProfile H k = Some ?p" using key by (rule extract_parsed)
  have reply: "\<forall>ws message s.
                   wf_sessions s \<and> property message (str ''publicKey'') = Some (Some (JStr k))
                   \<and> k \<noteq> [] \<and> isValidPGPPublicKey k
                   \<and> fst (register_evict H ws (findUserById (p_id ?p) (map_values (users s))) s) = Normal
                   \<longrightarrow> hd (attempts (new_events s (handleRegister H ws message s)))
                         = (ws, RegisteredMessage ?p)"
    using register_reply_first [OF _ _ _ _ ex] by blast
  have d: "\<exists>p. extractUserProfile H k = Some p
             \<and> p_id p = toUpperCase H fp
             \<and> p_name p = (if fst (parse_userIdString u) = [] then str ''User_'' @ randomSuffix H
                            else fst (parse_userIdString u))
             \<and> p_email p = (if snd (parse_userIdString u) = []
                             then stripWhiteSpace (toLowerCase H (p_name p)) @ str ''@example.com''
                             else snd (parse_userIdString u))
             \<and> (\<forall>ws message s.
                   wf_sessions s \<and> property message (str ''publicKey'') = Some (Some (JStr k))
                   \<and> k \<noteq> [] \<and> isValidPGPPublicKey k
                   \<and> fst (register_evict H ws (findUserById (p_id p) (map_values (users s))) s) = Normal
                   \<longrightarrow> hd (attempts (new_events s (handleRegister H ws message s)))
                         = (ws, RegisteredMessage p))"
    by (rule exI [of _ ?p]) (use ex reply in simp)
  show ?thesis by (intro conjI a b c d)
qed

text \<open>The user ids \<open>Alice <alice@x.com>\<close>, \<open> bob@x.org \<close> and \<open> Carol \<close>.\<close>

theorem profile_from_primary_user_id_witness:
  "parse_userIdString (str ''Alice <alice@x.com>'') = (str ''Alice'', str ''alice@x.com'')
   \<and> parse_userIdString (str '' bob@x.org '') = (str ''bob'', str ''bob@x.org'')
   \<and> parse_userIdString (str '' Carol '') = (str ''Carol'', [])
   \<and> extractUserProfile (host_with_userid (str ''Alice <alice@x.com>'')) alice_key
       = Some \<lparr>p_id = str ''AB12CD'', p_name = str ''Alice'', p_email = str ''alice@x.com''\<rparr>
   \<and> extractUserProfile (host_with_userid (str '' Carol '')) alice_key
       = Some \<lparr>p_id = str ''AB12CD'', p_name = str ''Carol'', p_email = str ''carol@example.com''\<rparr>
   \<and> hd (attempts (new_events lobby
           (handleRegister (host_with_userid (str ''Alice <alice@x.com>'')) 5 register_alice lobby)))
       = (5, RegisteredMessage \<lparr>p_id = str ''AB12CD'', p_name = str ''Alice'', p_email = str ''alice@x.com''\<rparr>)"
proof -
  let ?key = "\<lambda>u. \<lparr>getPrimaryUser = UserID u, getFingerprint = Some (str ''ab12cd'')\<rparr>"
  note alice = profile_from_primary_user_id
      [where H = "host_with_userid (str ''Alice <alice@x.com>'')" and k = alice_key
         and key = "?key (str ''Alice <alice@x.com>'')" and u = "str ''Alice <alice@x.com>''"
         and fp = "str ''ab12cd''" and ?g1.0 = "str ''Alice''" and ?g2.0 = "str ''alice@x.com''",
       OF host_with_userid_simps(1)]
  note bob = profile_from_primary_user_id
      [where H = "host_with_userid (str '' bob@x.org '')" and k = alice_key
         and key = "?key (str '' bob@x.org '')" and u = "str '' bob@x.org ''"
         and fp = "str ''ab12cd''", OF host_with_userid_simps(1)]
  note carol = profile_from_primary_user_id
      [where H = "host_with_userid (str '' Carol '')" and k = alice_key
         and key = "?key (str '' Carol '')" and u = "str '' Carol ''"
         and fp = "str ''ab12cd''", OF host_with_userid_simps(1)]
  have 1: "parse_userIdString (str ''Alice <alice@x.com>'') = (str ''Alice'', str ''alice@x.com'')"
    using alice userid_evals(1) by (simp add: trim_evals)
  have 2: "parse_userIdString (str '' bob@x.org '') = (str ''bob'', str ''bob@x.org'')"
    using bob userid_evals(2,3) by (simp add: trim_evals) (simp add: str_def AT_def)
  have 3: "parse_userIdString (str '' Carol '') = (str ''Carol'', [])"
    using carol userid_evals(4,5) by (simp add: trim_evals)
  have ne: "str ''Alice'' \<noteq> []" "str ''alice@x.com'' \<noteq> []" "str ''Carol'' \<noteq> []"
    by (simp_all add: str_def)
  have "\<exists>p. extractUserProfile (host_with_userid (str ''Alice <alice@x.com>'')) alice_key = Some p
      \<and> p_id p = str ''AB12CD'' \<and> p_name p = str ''Alice'' \<and> p_email p = str ''alice@x.com''
      \<and> (\<forall>ws message s.
          wf_sessions s \<and> property message (str ''publicKey'') = Some (Some (JStr alice_key))
          \<and> alice_key \<noteq> [] \<and> isValidPGPPublicKey alice_key
          \<and> fst (register_evict (host_with_userid (str ''Alice <alice@x.com>'')) ws
                    (findUserById (p_id p) (map_values (users s))) s) = Normal
          \<longrightarrow> hd (attempts (new_events s
                  (handleRegister (host_with_userid (str ''Alice <alice@x.com>'')) ws message s)))
                = (ws, RegisteredMessage p))"
    using alice [THEN conjunct2, THEN conjunct2, THEN conjunct2]
    unfolding 1 host_with_userid_simps fst_conv snd_conv using ne by simp
  then obtain p where p: "extractUserProfile (host_with_userid (str ''Alice <alice@x.com>'')) alice_key = Some p"
      "p_id p = str ''AB12CD''" "p_name p = str ''Alice''" "p_email p = str ''alice@x.com''"
      "\<forall>ws message s.
          wf_sessions s \<and> property message (str ''publicKey'') = Some (Some (JStr alice_key))
          \<and> alice_key \<noteq> [] \<and> isValidPGPPublicKey alice_key
          \<and> fst (register_evict (host_with_userid (str ''Alice <alice@x.com>'')) ws
                    (findUserById (p_id p) (map_values (users s))) s) = Normal
          \<longrightarrow> hd (attempts (new_events s
                  (handleRegister (host_with_userid (str ''Alice <alice@x.com>'')) ws message s)))
                = (ws, RegisteredMessage p)"
    by blast
  have pa: "p = \<lparr>p_id = str ''AB12CD'', p_name = str ''Alice'', p_email = str ''alice@x.com''\<rparr>"
    using p(2,3,4) by (cases p) simp
  have lower: "stripWhiteSpace (map ascii_lower (str ''Carol'')) @ str ''@example.com''
      = str ''carol@example.com''"
    by (simp add: str_def stripWhiteSpace_def ascii_lower_def isWhiteSpace_def isLineTerminator_def)
  have "\<exists>q. extractUserProfile (host_with_userid (str '' Carol '')) alice_key = Some q
      \<and> p_id q = str ''AB12CD'' \<and> p_name q = str ''Carol'' \<and> p_email q = str ''carol@example.com''"
    using carol [THEN conjunct2, THEN conjunct2, THEN conjunct2]
    unfolding 3 host_with_userid_simps fst_conv snd_conv using ne lower by auto
  then obtain q where q: "extractUserProfile (host_with_userid (str '' Carol '')) alice_key = Some q"
      "p_id q = str ''AB12CD''" "p_name q = str ''Carol''" "p_email q = str ''carol@example.com''"
    by blast
  have qa: "q = \<lparr>p_id = str ''AB12CD'', p_name = str ''Carol'', p_email = str ''carol@example.com''\<rparr>"
    using q(2,3,4) by (cases q) simp
  have wf: "wf_sessions lobby" by (simp add: wf_sessions_def lobby_def)
  have ev: "fst (register_evict (host_with_userid (str ''Alice <alice@x.com>'')) 5
                    (findUserById (p_id p) (map_values (users lobby))) lobby) = Normal"
    by (simp add: lobby_def map_values_def register_evict_fst)
  have 6: "hd (attempts (new_events lobby
           (handleRegister (host_with_userid (str ''Alice <alice@x.com>'')) 5 register_alice lobby)))
       = (5, RegisteredMessage p)"
    using p(5) wf register_alice_key alice_key_valid ev by blast
  show ?thesis
    using 1 2 3 p(1) q(1) 6 unfolding pa qa by (intro conjI)
qed

text \<open>
  Claim C8 as stated fails on the user id \<open> <a@b.c>\<close>: the expression matches, the first
  group is a space and trims to the empty string, and the name of the profile is the
  default, not that group.
\<close>

theorem empty_group_is_defaulted_counterexample:
  "match_userid (str '' <a@b.c>'') = Some (str '' '', str ''a@b.c'')
   \<and> trim (str '' '') = []
   \<and> extractUserProfile (host_with_userid (str '' <a@b.c>'')) alice_key
       = Some \<lparr>p_id = str ''AB12CD'', p_name = str ''User_k3j9x2ab'', p_email = str ''a@b.c''\<rparr>"
proof -
  have parse: "parse_userIdString (str '' <a@b.c>'') = ([], str ''a@b.c'')"
    by (simp add: parse_userIdString_def userid_evals trim_evals)
  have "str ''a@b.c'' \<noteq> []" by (simp add: str_def)
  then have "extractUserProfile (host_with_userid (str '' <a@b.c>'')) alice_key
       = Some \<lparr>p_id = str ''AB12CD'', p_name = str ''User_'' @ str ''k3j9x2ab'', p_email = str ''a@b.c''\<rparr>"
    by (simp add: extract_parsed [OF host_with_userid_simps(1)] parse host_with_userid_simps)
  moreover have "str ''User_'' @ str ''k3j9x2ab'' = str ''User_k3j9x2ab''" by (simp add: str_def)
  ultimately show ?thesis using userid_evals(6) trim_evals(5) by simp
qed

text \<open>
  Claim C9. For every armored text, the id that \<open>generateUserIdFromKey\<close> computes is the
  specified weak hash: the rolling hash \<open>h := h * 31 + charCode\<close> in signed 32-bit
  arithmetic with wrap-around, its absolute value, as eight lowercase hexadecimal digits.
  And the id of the extracted profile is a function of the credential and the key parser
  alone, the fingerprint in upper case when parsing succeeds and the fallback hash when it
  fails: neither the channel, nor the room, nor the random suffix enters it.
\<close>

theorem fallback_id_is_weak_hash:
  "generateUserIdFromKey k = spec_fallback_id k \<and>
   (\<exists>p. extractUserProfile H k = Some p \<and> p_id p = spec_identity_id (readKey H) (toUpperCase H) k)"
  using generateUserIdFromKey_spec [of k] extractUserProfile_id [of H k] by simp

text \<open>
  Claim C10. When a registration that completes evicts another channel, the eviction
  block deletes that channel from the directory and closes it, and leaves the session
  set as it was. The evicted channel, if it is in the session set, is a target of the
  roster rebroadcast that follows, and it is in the session set afterwards unless that
  delivery threw; its own close or error event (\<open>handleDisconnect\<close>) removes it.
\<close>

theorem evicted_channel_stays_in_session_set:
  fixes ws :: ws and s :: ChatRoom
  assumes wf: "wf_sessions s"
    and frame: "property message (str ''publicKey'') = Some (Some (JStr k))" "k \<noteq> []"
      "isValidPGPPublicKey k"
    and profile: "extractUserProfile H k = Some p"
    and existing: "findUserById (p_id p) (map_values (users s)) = Some e" "u_webSocket e \<noteq> ws"
    and completed: "register_try H ws message s = (Normal, s')"
  shows "register_evict H ws (Some e) s
           = (Normal, emit (Closed (u_webSocket e)) (s\<lparr>users := map_delete (u_webSocket e) (users s)\<rparr>))
       \<and> sessions (snd (register_evict H ws (Some e) s)) = sessions s
       \<and> map_get (u_webSocket e) (users s') = None
       \<and> Closed (u_webSocket e) \<in> set (new_events s s')
       \<and> (u_webSocket e \<in> set (live (sessions s)) \<longrightarrow>
            (\<exists>roster. (u_webSocket e, UserListMessage roster) \<in> set (attempts (new_events s s'))))
       \<and> (u_webSocket e \<in> set (live (sessions s')) \<longleftrightarrow>
            u_webSocket e \<in> set (live (sessions s)) \<and> u_webSocket e \<notin> set (failures (new_events s s')))
       \<and> (\<forall>H' t. wf_sessions t \<longrightarrow> u_webSocket e \<notin> set (live (sessions (handleDisconnect H' (u_webSocket e) t))))"
proof -
  define s1 where "s1 = snd (register_evict H ws (Some e) s)"
  define m2 where "m2 = map_set ws (new_userInfo ws k p) (users s1)"
  define s3 where "s3 = emit (Sent ws (RegisteredMessage p))
                  (JSON_stringify (RegisteredMessage p) (s1\<lparr>users := m2\<rparr>))"
  define F where "F = failures (pass_events H (UserListMessage (userList m2)) s3)"
  note c = register_completed [OF wf frame profile completed, unfolded existing(1), folded s1_def,
      folded m2_def, folded s3_def, folded F_def]
  have ok: "\<not> closeThrows H (io s) (u_webSocket e)"
    using c(1) existing(2) by (simp add: register_evict_fst split: if_splits)
  then have ev: "register_evict H ws (Some e) s
           = (Normal, emit (Closed (u_webSocket e)) (s\<lparr>users := map_delete (u_webSocket e) (users s)\<rparr>))"
    using existing(2) by (simp add: register_evict_other)
  have se: "sessions (snd (register_evict H ws (Some e) s)) = sessions s"
    by (rule register_evict_sessions)
  have io1: "io s1 = io s @ [Closed (u_webSocket e)]"
    by (simp add: s1_def ev)
  have new: "new_events s s' = [Closed (u_webSocket e), Stringified (RegisteredMessage p),
                 Sent ws (RegisteredMessage p)] @ pass_events H (UserListMessage (userList m2)) s3"
    by (rule new_events_append) (simp add: c(3) io1)
  have "users s1 = map_delete (u_webSocket e) (users s)" by (simp add: s1_def ev)
  then have "map_get (u_webSocket e) m2 = None"
    using existing(2) by (simp add: m2_def map_get_map_set map_get_map_delete)
  then have gone: "map_get (u_webSocket e) (users s') = None"
    unfolding c(4) by (rule map_get_filter_None)
  have closed: "Closed (u_webSocket e) \<in> set (new_events s s')"
    unfolding new by simp
  have att: "attempts (new_events s s')
      = (ws, RegisteredMessage p) # map (\<lambda>c. (c, UserListMessage (userList m2))) (live (sessions s))"
    unfolding new by (simp add: attempts_append pass_events_attempts c(6))
  have target: "u_webSocket e \<in> set (live (sessions s)) \<longrightarrow>
            (\<exists>roster. (u_webSocket e, UserListMessage roster) \<in> set (attempts (new_events s s')))"
    unfolding att by auto
  have fl: "failures (new_events s s') = F"
    unfolding new by (simp add: failures_append F_def)
  have stays: "u_webSocket e \<in> set (live (sessions s')) \<longleftrightarrow>
            u_webSocket e \<in> set (live (sessions s)) \<and> u_webSocket e \<notin> set (failures (new_events s s'))"
    unfolding fl c(5) by auto
  have leaves: "\<forall>H' t. wf_sessions t \<longrightarrow> u_webSocket e \<notin> set (live (sessions (handleDisconnect H' (u_webSocket e) t)))"
    by (simp add: handleDisconnect_sessions)
  show ?thesis by (intro conjI ev se gone closed target stays leaves)
qed

text \<open>The same registration: channel 4 is evicted and stays in the session set.\<close>

theorem evicted_channel_stays_in_session_set_witness:
  "wf_sessions sample_room
   \<and> findUserById (p_id alice_profile) (map_values (users sample_room)) = Some alice
   \<and> u_webSocket alice = 4
   \<and> fst (register_try sample_host 3 register_alice sample_room) = Normal
   \<and> sessions (snd (register_evict sample_host 3 (Some alice) sample_room)) = sessions sample_room
   \<and> map_get 4 (users (handleRegister sample_host 3 register_alice sample_room)) = None
   \<and> Closed 4 \<in> set (new_events sample_room (handleRegister sample_host 3 register_alice sample_room))
   \<and> (\<exists>roster. (4, UserListMessage roster)
         \<in> set (attempts (new_events sample_room (handleRegister sample_host 3 register_alice sample_room))))
   \<and> 4 \<in> set (live (sessions (handleRegister sample_host 3 register_alice sample_room)))"
proof -
  let ?s' = "handleRegister sample_host 3 register_alice sample_room"
  have k: "alice_key \<noteq> []" "isValidPGPPublicKey alice_key" using alice_key_valid by simp_all
  have run: "register_try sample_host 3 register_alice sample_room = (Normal, ?s')"
    using sample_fst by (rule register_try_Normal)
  have wf: "wf_sessions sample_room" using sample_room_inv by (simp add: room_inv_def)
  have one: "u_webSocket alice \<noteq> 3" "u_webSocket alice = 4" by (simp_all add: alice_def)
  note claim = evicted_channel_stays_in_session_set
      [OF wf register_alice_key k sample_extract sample_room_found one(1) run]
  obtain f tr where new: "new_events sample_room ?s'
           = new_events sample_room
               (snd (register_evict sample_host 3
                  (findUserById (p_id alice_profile) (map_values (users sample_room))) sample_room))
             @ [Stringified (RegisteredMessage alice_profile), Sent 3 (RegisteredMessage alice_profile),
                Stringified f]
             @ deliveries sample_host f (live (sessions sample_room)) tr"
    using register_completed_new [OF wf register_alice_key k sample_extract run] by blast
  have fl: "failures (new_events sample_room ?s') = [2]"
    unfolding new
    by (simp add: failures_append register_evict_failures sample_deliveries') (simp add: sample_room_def)
  have l: "4 \<in> set (live (sessions sample_room))" by (simp add: sample_room_def)
  show ?thesis
    using claim wf sample_fst sample_room_found l unfolding fl one(2)
    by simp
qed


end
